theory Spec2Isabelle
  imports
    Main
    "HOL-Library.Word"
    "HOL-Library.Char_ord"
    "HOL-Library.List_Lexorder"
    "HOL-Library.Sublist"
    "HOL-Library.Multiset"
begin

section \<open>Data model\<close>

text \<open>
  The structures of \<^verbatim>\<open>message.h\<close> and \<^verbatim>\<open>crdt.h\<close>. \<^verbatim>\<open>uint64_t\<close> and \<^verbatim>\<open>uint32_t\<close> are
  words. The column fields are C++ \<^verbatim>\<open>int\<close>; they are modelled as mathematical integers
  holding 32-bit values. Signed overflow is undefined behaviour in C++; the conflict test
  adds a length to a column, the build wraps that sum around, and the model writes the
  wrap-around out (\<open>wrap_int32\<close>). The other column computations are clamped against the
  length of a line, and the model describes the executions in which they stay inside the
  32-bit range.
  A \<^verbatim>\<open>std::string\<close> is a byte list; \<^verbatim>\<open>std::string::operator<\<close> is the lexicographic
  order on unsigned bytes, which is the list order of \<^verbatim>\<open>List_Lexorder\<close> over the
  character order of \<^verbatim>\<open>Char_ord\<close>.
\<close>

datatype OpType = Insert | Delete | Replace

record UpdateExt =
  ts :: "64 word"
  uid :: string
  line :: "32 word"
  cs :: int
  ce :: int
  op :: OpType
  old_text :: string
  new_text :: string

section \<open>Merge engine (crdt.cpp)\<close>

subsection \<open>Conflict detection and the LWW order\<close>

text \<open>
  The value of a 32-bit two's-complement \<^verbatim>\<open>int\<close> computation whose mathematical result
  is \<open>x\<close>; it is \<open>x\<close> itself from \<open>- 2147483648\<close> to \<open>2147483647\<close>.
\<close>

definition wrap_int32 :: "int \<Rightarrow> int" where
  "wrap_int32 x = (x + 2147483648) mod 4294967296 - 2147483648"

definition overlaps :: "UpdateExt \<Rightarrow> UpdateExt \<Rightarrow> bool" where
  "overlaps a b =
     (if line a \<noteq> line b then False
      else if old_text a = [] \<and> old_text b = [] \<and> cs a = cs b then True
      else (let a_end = wrap_int32 (cs a + int (length (old_text a)));
                b_end = wrap_int32 (cs b + int (length (old_text b)))
            in \<not> (a_end \<le> cs b \<or> b_end \<le> cs a)))"

definition newer_wins :: "UpdateExt \<Rightarrow> UpdateExt \<Rightarrow> bool" where
  "newer_wins a b = (if ts a \<noteq> ts b then ts a > ts b else uid a < uid b)"

subsection \<open>Strings\<close>

text \<open>
  \<^verbatim>\<open>std::string::substr(pos, n)\<close> throws \<^verbatim>\<open>std::out_of_range\<close> when \<^verbatim>\<open>pos > size()\<close> and
  clamps the count; \<^verbatim>\<open>substr(pos)\<close> takes the rest of the string.
\<close>

datatype error = OutOfRange

definition substr :: "string \<Rightarrow> nat \<Rightarrow> nat option \<Rightarrow> error + string" where
  "substr s pos n =
     (if pos > length s then Inl OutOfRange
      else Inr (case n of None \<Rightarrow> drop pos s | Some k \<Rightarrow> take k (drop pos s)))"

subsection \<open>Single-operation applier\<close>

definition apply_update_to_line :: "string \<Rightarrow> UpdateExt \<Rightarrow> error + string" where
  "apply_update_to_line cur u =
     (if cur = [] then Inr (new_text u)
      else
        (let start = max 0 (cs u);
             end' = min (ce u) (int (length cur) - 1)
         in if start > end' then Inr cur
            else
              (case substr cur 0 (Some (nat start)) of
                 Inl e \<Rightarrow> Inl e
               | Inr pre \<Rightarrow>
                   (let result = pre @ new_text u
                    in if end' \<ge> 0 \<and> nat (end' + 1) < length cur
                       then (case substr cur (nat (end' + 1)) None of
                               Inl e \<Rightarrow> Inl e
                             | Inr suf \<Rightarrow> Inr (result @ suf))
                       else Inr result))))"

subsection \<open>Step 2: chain coalescing\<close>

text \<open>
  The tombstone is an in-band marker written into \<^verbatim>\<open>old_text\<close>.
\<close>

definition MERGED :: string where
  "MERGED = ''###MERGED###''"

definition continues :: "UpdateExt \<Rightarrow> UpdateExt \<Rightarrow> bool" where
  "continues a b =
     (line a = line b \<and> uid a = uid b \<and> new_text a = old_text b \<and> cs a = cs b)"

text \<open>
  The loops over \<^verbatim>\<open>i\<close> and \<^verbatim>\<open>j > i\<close> touch only \<^verbatim>\<open>all[i]\<close> and \<^verbatim>\<open>all[j]\<close>, so the
  iteration for \<^verbatim>\<open>i\<close> is a pass of the head of the remaining list over its tail:
  \<open>coalesce_inner x ys\<close> is the inner loop for \<^verbatim>\<open>all[i] = x\<close>, returning the updated
  \<^verbatim>\<open>all[i]\<close> and the updated tail, and \<open>coalesce\<close> is the outer loop.
\<close>

fun coalesce_inner :: "UpdateExt \<Rightarrow> UpdateExt list \<Rightarrow> UpdateExt \<times> UpdateExt list" where
  "coalesce_inner x [] = (x, [])"
| "coalesce_inner x (y # ys) =
     (if continues x y
      then (let (x', ys') = coalesce_inner (x\<lparr>new_text := new_text y, ts := ts y\<rparr>) ys
            in (x', y\<lparr>old_text := MERGED\<rparr> # ys'))
      else (let (x', ys') = coalesce_inner x ys in (x', y # ys')))"

lemma length_coalesce_inner: "length (snd (coalesce_inner x ys)) = length ys"
  by (induction ys arbitrary: x) (simp_all add: case_prod_beta)

function coalesce :: "UpdateExt list \<Rightarrow> UpdateExt list" where
  "coalesce [] = []"
| "coalesce (x # xs) = (let (x', xs') = coalesce_inner x xs in x' # coalesce xs')"
  by pat_completeness auto
termination
proof (relation "measure length")
  fix x xs p x' xs'
  assume "p = coalesce_inner x xs" and "(x', xs') = p"
  then have "xs' = snd (coalesce_inner x xs)"
    by (metis snd_conv)
  then show "(xs', x # xs) \<in> measure length"
    by (simp add: length_coalesce_inner)
qed simp

subsection \<open>Steps 3 and 4: conflict resolution\<close>

text \<open>
  Every entry carries its \<^verbatim>\<open>alive\<close> flag. \<open>resolve_inner x ys\<close> is the inner loop for a
  live, unmerged \<^verbatim>\<open>all[i] = x\<close>: it returns the final \<^verbatim>\<open>alive[i]\<close> and the tail with its
  flags; the \<^verbatim>\<open>break\<close> leaves the rest of the tail untouched.
\<close>

fun resolve_inner :: "UpdateExt \<Rightarrow> (UpdateExt \<times> bool) list \<Rightarrow> bool \<times> (UpdateExt \<times> bool) list" where
  "resolve_inner x [] = (True, [])"
| "resolve_inner x ((y, alive_j) # ys) =
     (if \<not> alive_j then (let (a, ys') = resolve_inner x ys in (a, (y, alive_j) # ys'))
      else if old_text y = MERGED then (let (a, ys') = resolve_inner x ys in (a, (y, False) # ys'))
      else if overlaps x y then
        (if newer_wins x y then (let (a, ys') = resolve_inner x ys in (a, (y, False) # ys'))
         else (False, (y, alive_j) # ys))
      else (let (a, ys') = resolve_inner x ys in (a, (y, alive_j) # ys')))"

lemma length_resolve_inner: "length (snd (resolve_inner x ys)) = length ys"
  by (induction x ys rule: resolve_inner.induct) (simp_all add: case_prod_beta)

function resolve :: "(UpdateExt \<times> bool) list \<Rightarrow> (UpdateExt \<times> bool) list" where
  "resolve [] = []"
| "resolve ((x, alive_i) # xs) =
     (if \<not> alive_i then (x, alive_i) # resolve xs
      else if old_text x = MERGED then (x, False) # resolve xs
      else (let (a, xs') = resolve_inner x xs in (x, a) # resolve xs'))"
  by pat_completeness auto
termination
proof (relation "measure length")
  fix x alive_i xs p a xs'
  assume "p = resolve_inner x xs" and "(a, xs') = p"
  then have "xs' = snd (resolve_inner x xs)"
    by (metis snd_conv)
  then show "(xs', (x, alive_i) # xs) \<in> measure length"
    by (simp add: length_resolve_inner)
qed simp_all

definition survivors :: "UpdateExt list \<Rightarrow> UpdateExt list" where
  "survivors all = map fst (filter snd (resolve (map (\<lambda>u. (u, True)) all)))"

subsection \<open>Step 5: grouping, sorting and application\<close>

text \<open>
  \<^verbatim>\<open>std::map<uint32_t, std::vector<UpdateExt>>\<close> is an association list kept in ascending
  key order; \<open>push_update\<close> is \<^verbatim>\<open>updates_per_line[u.line].push_back(u)\<close>.
\<close>

fun push_update :: "(32 word \<times> UpdateExt list) list \<Rightarrow> UpdateExt \<Rightarrow> (32 word \<times> UpdateExt list) list" where
  "push_update [] u = [(line u, [u])]"
| "push_update ((k, vec) # m) u =
     (if line u = k then (k, vec @ [u]) # m
      else if line u < k then (line u, [u]) # (k, vec) # m
      else (k, vec) # push_update m u)"

text \<open>
  The comparator of the \<^verbatim>\<open>std::sort\<close> call. \<^verbatim>\<open>std::sort\<close> leaves the relative order of
  equivalent elements unspecified; the model sorts by stable insertion.
\<close>

definition sort_before :: "UpdateExt \<Rightarrow> UpdateExt \<Rightarrow> bool" where
  "sort_before a b = (if cs a \<noteq> cs b then cs a < cs b else ts a > ts b)"

fun insert_update :: "UpdateExt \<Rightarrow> UpdateExt list \<Rightarrow> UpdateExt list" where
  "insert_update u [] = [u]"
| "insert_update u (v # vs) =
     (if sort_before v u then v # insert_update u vs else u # v # vs)"

fun sort_updates :: "UpdateExt list \<Rightarrow> UpdateExt list" where
  "sort_updates [] = []"
| "sort_updates (u # us) = insert_update u (sort_updates us)"

function extend_lines :: "string list \<Rightarrow> nat \<Rightarrow> string list" where
  "extend_lines lines line_num =
     (if length lines \<le> line_num then extend_lines (lines @ [[]]) line_num else lines)"
  by pat_completeness auto
termination
  by (relation "measure (\<lambda>(lines, line_num). Suc line_num - length lines)") auto

declare extend_lines.simps [simp del]

fun apply_updates :: "string \<Rightarrow> int \<Rightarrow> UpdateExt list \<Rightarrow> error + string" where
  "apply_updates cur offset [] = Inr cur"
| "apply_updates cur offset (u # us) =
     (let adjusted_cs = max 0 (cs u + offset);
          adjusted_ce = min (ce u + offset) (int (length cur) - 1)
      in case substr cur 0 (Some (nat adjusted_cs)) of
           Inl e \<Rightarrow> Inl e
         | Inr pre \<Rightarrow>
             (case (if adjusted_ce \<ge> 0 \<and> nat (adjusted_ce + 1) < length cur
                    then substr cur (nat (adjusted_ce + 1)) None else Inr []) of
                Inl e \<Rightarrow> Inl e
              | Inr suf \<Rightarrow>
                  apply_updates (pre @ new_text u @ suf)
                    (offset + (int (length (new_text u)) - (adjusted_ce - adjusted_cs + 1))) us))"

fun apply_lines :: "string list \<Rightarrow> (32 word \<times> UpdateExt list) list \<Rightarrow> error + string list" where
  "apply_lines lines [] = Inr lines"
| "apply_lines lines ((line_num, vec) # kvs) =
     (let lines1 = extend_lines lines (unat line_num)
      in case apply_updates (lines1 ! unat line_num) 0 (sort_updates vec) of
           Inl e \<Rightarrow> Inl e
         | Inr cur \<Rightarrow> apply_lines (lines1[unat line_num := cur]) kvs)"

text \<open>
  \<open>do_merge_apply\<close> returns the function's result together with the three vectors it
  mutates: the document and the two buffers. \<^verbatim>\<open>self_uid\<close> is discarded by the source
  (\<^verbatim>\<open>(void)self_uid;\<close>).
\<close>

definition do_merge_apply ::
  "string list \<Rightarrow> UpdateExt list \<Rightarrow> UpdateExt list \<Rightarrow> string \<Rightarrow>
   error + (bool \<times> string list \<times> UpdateExt list \<times> UpdateExt list)" where
  "do_merge_apply lines local_unmerged recv_unmerged self_uid =
     (if local_unmerged = [] \<and> recv_unmerged = []
      then Inr (False, lines, local_unmerged, recv_unmerged)
      else
        (let all = coalesce (local_unmerged @ recv_unmerged);
             winners = survivors all;
             updates_per_line = foldl push_update [] winners
         in case apply_lines lines updates_per_line of
              Inl e \<Rightarrow> Inl e
            | Inr lines' \<Rightarrow> Inr (winners \<noteq> [], lines', [], [])))"

text \<open>
  The editor trims trailing empty lines before it writes the merged document
  (and \<^verbatim>\<open>read_lines\<close> does so after reading).
\<close>

function trim_trailing :: "string list \<Rightarrow> string list" where
  "trim_trailing lines =
     (if lines \<noteq> [] \<and> last lines = [] then trim_trailing (butlast lines) else lines)"
  by pat_completeness auto
termination
  by (relation "measure length") auto

declare trim_trailing.simps [simp del]

section \<open>C strings\<close>

text \<open>
  A \<^verbatim>\<open>char\<close> buffer and a \<^verbatim>\<open>const char *\<close> are modelled by the bytes they hold; a C
  function reads them up to the first NUL byte. \<open>c_str\<close> is that reading,
  \<open>snprintf n s\<close> is \<^verbatim>\<open>snprintf(buf, n, "%s", s)\<close> (at most \<open>n - 1\<close> bytes are stored), and
  \<open>strncmp\<close> compares at most \<open>n\<close> bytes as unsigned values, stopping at a NUL.
\<close>

definition NUL :: char where
  "NUL = CHR 0x00"

definition c_str :: "string \<Rightarrow> string" where
  "c_str s = takeWhile (\<lambda>c. c \<noteq> NUL) s"

definition snprintf :: "nat \<Rightarrow> string \<Rightarrow> string" where
  "snprintf n s = take (n - 1) (c_str s)"

fun strncmp :: "string \<Rightarrow> string \<Rightarrow> nat \<Rightarrow> int" where
  "strncmp a b 0 = 0"
| "strncmp [] [] (Suc n) = 0"
| "strncmp [] (y # ys) (Suc n) = - int (of_char y)"
| "strncmp (x # xs) [] (Suc n) = int (of_char x)"
| "strncmp (x # xs) (y # ys) (Suc n) =
     (if x \<noteq> y then int (of_char x) - int (of_char y)
      else if x = NUL then 0
      else strncmp xs ys n)"

section \<open>Registry (registry.h, registry.cpp)\<close>

definition MAX_USERS :: nat where
  "MAX_USERS = 5"

definition USER_ID_MAX :: nat where
  "USER_ID_MAX = 32"

definition QUEUE_NAME_MAX :: nat where
  "QUEUE_NAME_MAX = 64"

record UserEntry =
  active :: int
  user_id :: string
  queue_name :: string

record RegistrySegment =
  magic :: "32 word"
  version :: "32 word"
  users :: "UserEntry list"

text \<open>
  \<^verbatim>\<open>__sync_bool_compare_and_swap(p, expected, desired)\<close> on a value, run by one process at
  a time: the result and the value left in memory.
\<close>

definition compare_and_swap :: "int \<Rightarrow> int \<Rightarrow> int \<Rightarrow> bool \<times> int" where
  "compare_and_swap v expected desired = (if v = expected then (True, desired) else (False, v))"

text \<open>
  The two loops of \<^verbatim>\<open>registry_register\<close>, each over the slot indices it still has to
  visit; \<open>None\<close> is a loop that ran to its end. \<^verbatim>\<open>queue_name\<close> may be a null pointer.
\<close>

fun register_existing ::
  "RegistrySegment \<Rightarrow> string \<Rightarrow> string option \<Rightarrow> nat list \<Rightarrow> (nat \<times> RegistrySegment) option" where
  "register_existing seg uid_arg qn [] = None"
| "register_existing seg uid_arg qn (i # idx) =
     (if active (users seg ! i) = 1 \<and> strncmp (user_id (users seg ! i)) uid_arg USER_ID_MAX = 0
      then Some (i, seg\<lparr>users := (users seg)
             [i := (users seg ! i)\<lparr>queue_name :=
                 snprintf QUEUE_NAME_MAX (case qn of Some q \<Rightarrow> q | None \<Rightarrow> [])\<rparr>]\<rparr>)
      else register_existing seg uid_arg qn idx)"

fun register_claim ::
  "RegistrySegment \<Rightarrow> string \<Rightarrow> string option \<Rightarrow> nat list \<Rightarrow> (nat \<times> RegistrySegment) option" where
  "register_claim seg uid_arg qn [] = None"
| "register_claim seg uid_arg qn (i # idx) =
     (case compare_and_swap (active (users seg ! i)) 0 1 of
        (True, v) \<Rightarrow>
          Some (i, seg\<lparr>users := (users seg)
             [i := (users seg ! i)\<lparr>active := v,
                 user_id := snprintf USER_ID_MAX uid_arg,
                 queue_name := snprintf QUEUE_NAME_MAX (case qn of Some q \<Rightarrow> q | None \<Rightarrow> [])\<rparr>]\<rparr>)
      | (False, v) \<Rightarrow> register_claim seg uid_arg qn idx)"

text \<open>
  The result is the return code, \<^verbatim>\<open>assigned_index\<close> and the segment.
\<close>

definition registry_register ::
  "RegistrySegment \<Rightarrow> string \<Rightarrow> string option \<Rightarrow> int \<times> int \<times> RegistrySegment" where
  "registry_register seg uid_arg qn =
     (case register_existing seg uid_arg qn [0..<MAX_USERS] of
        Some (i, seg') \<Rightarrow> (0, int i, seg')
      | None \<Rightarrow>
          (case register_claim seg uid_arg qn [0..<MAX_USERS] of
             Some (i, seg') \<Rightarrow> (0, int i, seg')
           | None \<Rightarrow> (- 4, - 1, seg)))"

section \<open>Receive ring (editor.cpp)\<close>

definition CAP :: nat where
  "CAP = 128"

record 'a RingBuffer =
  head :: nat
  tail :: nat
  data :: "'a list"

text \<open>
  \<^verbatim>\<open>push\<close> returns its result and the ring; \<^verbatim>\<open>pop\<close> returns the value written to
  \<^verbatim>\<open>out\<close> (\<open>None\<close> for the result \<^verbatim>\<open>false\<close>) and the ring. The indices are \<^verbatim>\<open>size_t\<close>
  values below \<open>CAP\<close>, so \<^verbatim>\<open>h + 1\<close> does not wrap.
\<close>

definition push :: "'a RingBuffer \<Rightarrow> 'a \<Rightarrow> bool \<times> 'a RingBuffer" where
  "push r v =
     (let h = head r; n = (h + 1) mod CAP
      in if n = tail r then (False, r)
         else (True, r\<lparr>data := (data r)[h := v], head := n\<rparr>))"

definition pop :: "'a RingBuffer \<Rightarrow> 'a option \<times> 'a RingBuffer" where
  "pop r =
     (let t = tail r
      in if t = head r then (None, r)
         else (Some (data r ! t), r\<lparr>tail := (t + 1) mod CAP\<rparr>))"

text \<open>
  A sequential run of one producer and one consumer: a list of calls, executed one after
  the other, with the items whose \<^verbatim>\<open>push\<close> returned \<^verbatim>\<open>true\<close> and the items popped
  recorded in order.
\<close>

datatype 'a call = Push 'a | Pop

fun run_calls ::
  "'a RingBuffer \<Rightarrow> 'a list \<Rightarrow> 'a list \<Rightarrow> 'a call list \<Rightarrow> 'a RingBuffer \<times> 'a list \<times> 'a list" where
  "run_calls r pushed popped [] = (r, pushed, popped)"
| "run_calls r pushed popped (Push v # calls) =
     (case push r v of
        (True, r') \<Rightarrow> run_calls r' (pushed @ [v]) popped calls
      | (False, r') \<Rightarrow> run_calls r' pushed popped calls)"
| "run_calls r pushed popped (Pop # calls) =
     (case pop r of
        (Some v, r') \<Rightarrow> run_calls r' pushed (popped @ [v]) calls
      | (None, r') \<Rightarrow> run_calls r' pushed popped calls)"

definition ring_wf :: "'a RingBuffer \<Rightarrow> bool" where
  "ring_wf r = (head r < CAP \<and> tail r < CAP \<and> length (data r) = CAP)"

definition ring_count :: "'a RingBuffer \<Rightarrow> nat" where
  "ring_count r = (head r + CAP - tail r) mod CAP"

definition ring_items :: "'a RingBuffer \<Rightarrow> 'a list" where
  "ring_items r = map (\<lambda>k. data r ! ((tail r + k) mod CAP)) [0..<ring_count r]"

section \<open>Editor loop (editor.cpp)\<close>

subsection \<open>Wire form and conversions\<close>

definition TEXT_SEG_MAX :: nat where
  "TEXT_SEG_MAX = 256"

record UpdateMessage =
  sender :: string
  timestamp_ns :: "64 word"
  m_line :: "32 word"
  col_start :: int
  col_end :: int
  m_op :: OpType
  m_old_text :: string
  m_new_text :: string

record Change =
  c_line :: int
  c_col_start :: int
  c_col_end :: int
  c_old_text :: string
  c_new_text :: string
  c_timestamp :: string
  c_user_id :: string
  c_type :: string

text \<open>
  \<^verbatim>\<open>now_ns()\<close> reads the clock; the value read is a parameter of the conversions.
\<close>

definition op_of_type :: "string \<Rightarrow> OpType" where
  "op_of_type t = (if t = ''insert'' then Insert else if t = ''delete'' then Delete else Replace)"

definition to_message :: "string \<Rightarrow> 64 word \<Rightarrow> Change \<Rightarrow> UpdateMessage" where
  "to_message g_user_id now c =
     \<lparr>sender = snprintf USER_ID_MAX g_user_id,
      timestamp_ns = now,
      m_line = word_of_int (c_line c),
      col_start = c_col_start c,
      col_end = c_col_end c,
      m_op = op_of_type (c_type c),
      m_old_text = snprintf TEXT_SEG_MAX (c_old_text c),
      m_new_text = snprintf TEXT_SEG_MAX (c_new_text c)\<rparr>"

definition to_ext :: "UpdateMessage \<Rightarrow> UpdateExt" where
  "to_ext m =
     \<lparr>ts = timestamp_ns m,
      uid = c_str (sender m),
      line = m_line m,
      cs = col_start m,
      ce = col_end m,
      op = m_op m,
      old_text = c_str (m_old_text m),
      new_text = c_str (m_new_text m)\<rparr>"

definition change_to_ext :: "string \<Rightarrow> 64 word \<Rightarrow> Change \<Rightarrow> UpdateExt" where
  "change_to_ext g_user_id now c =
     \<lparr>ts = now,
      uid = g_user_id,
      line = word_of_int (c_line c),
      cs = c_col_start c,
      ce = c_col_end c,
      op = op_of_type (c_type c),
      old_text = c_old_text c,
      new_text = c_new_text c\<rparr>"

subsection \<open>Draining the receive ring\<close>

text \<open>
  The loop \<^verbatim>\<open>for (;;) { if (!g_recv_buf.pop(tmp)) break; ... }\<close>, which the editor runs
  twice per iteration (before the merge, and again after it with the flag named
  \<^verbatim>\<open>got_more_after_merge\<close>). Its state is \<^verbatim>\<open>recv_unmerged\<close>, the flag and
  \<^verbatim>\<open>g_last_sender\<close>. The loop has no bound of its own, so the model is a partial function.
\<close>

partial_function (option) drain ::
  "UpdateMessage RingBuffer \<Rightarrow> string \<Rightarrow> UpdateExt list \<times> bool \<times> string \<Rightarrow>
   (UpdateMessage RingBuffer \<times> UpdateExt list \<times> bool \<times> string) option" where
  "drain g_recv_buf g_user_id st =
     (case pop g_recv_buf of
        (None, r) \<Rightarrow> Some (r, st)
      | (Some tmp, r) \<Rightarrow>
          if strncmp (sender tmp) (c_str g_user_id) USER_ID_MAX = 0 then drain r g_user_id st
          else (case st of (recv_unmerged, got_remote_updates, g_last_sender) \<Rightarrow>
                  drain r g_user_id
                    (recv_unmerged @ [to_ext tmp], True, snprintf USER_ID_MAX (sender tmp))))"

subsection \<open>Change synthesis\<close>

function common_prefix :: "string \<Rightarrow> string \<Rightarrow> int \<Rightarrow> int \<Rightarrow> int" where
  "common_prefix oldL newL max_common_left k =
     (if k < max_common_left \<and> oldL ! nat k = newL ! nat k
      then common_prefix oldL newL max_common_left (k + 1) else k)"
  by pat_completeness auto
termination
  by (relation "measure (\<lambda>(oldL, newL, max_common_left, k). nat (max_common_left - k))") auto

declare common_prefix.simps [simp del]

function common_suffix :: "string \<Rightarrow> string \<Rightarrow> int \<Rightarrow> int \<Rightarrow> int" where
  "common_suffix oldL newL k t =
     (let old_len = int (length oldL); new_len = int (length newL)
      in if t < old_len - k \<and> t < new_len - k \<and>
            oldL ! nat (old_len - 1 - t) = newL ! nat (new_len - 1 - t)
         then common_suffix oldL newL k (t + 1) else t)"
  by pat_completeness auto
termination
  by (relation "measure (\<lambda>(oldL, newL, k, t). nat (int (length oldL) - k - t))") auto

declare common_suffix.simps [simp del]

text \<open>
  The body of the first loop for one index \<open>i\<close>: \<open>None\<close> is a \<^verbatim>\<open>continue\<close>;
  \<open>first_diff\<close> and \<open>suffix_len\<close> are the source's \<^verbatim>\<open>cs\<close> and \<^verbatim>\<open>tail\<close>. The fields
  \<^verbatim>\<open>timestamp\<close> and \<^verbatim>\<open>user_id\<close> of \<^verbatim>\<open>last_change\<close> keep their initial values.
\<close>

definition diff_line :: "string \<Rightarrow> string \<Rightarrow> nat \<Rightarrow> string \<Rightarrow> string \<Rightarrow> Change option" where
  "diff_line now_time_str g_user_id i oldL newL =
     (if oldL = newL then None
      else
        (let old_len = int (length oldL);
             new_len = int (length newL);
             max_common_left = min old_len new_len;
             first_diff = common_prefix oldL newL max_common_left 0;
             suffix_len = common_suffix oldL newL first_diff 0;
             old_mid_len = old_len - first_diff - suffix_len;
             new_mid_len = new_len - first_diff - suffix_len;
             old_seg = (if old_mid_len > 0
                        then take (nat old_mid_len) (drop (nat first_diff) oldL) else []);
             new_seg = (if new_mid_len > 0
                        then take (nat new_mid_len) (drop (nat first_diff) newL) else [])
         in if old_seg = new_seg then None
            else Some
              \<lparr>c_line = int i,
               c_col_start = first_diff,
               c_col_end = (if old_seg = [] then first_diff
                            else first_diff + int (length old_seg) - 1),
               c_old_text = old_seg,
               c_new_text = new_seg,
               c_timestamp = now_time_str,
               c_user_id = g_user_id,
               c_type = (if old_seg = [] \<and> new_seg \<noteq> [] then ''insert''
                         else if old_seg \<noteq> [] \<and> new_seg = [] then ''delete''
                         else ''replace'')\<rparr>))"

definition added_line :: "string \<Rightarrow> string \<Rightarrow> nat \<Rightarrow> string \<Rightarrow> Change option" where
  "added_line now_time_str g_user_id i newL =
     (if newL = [] then None
      else Some
        \<lparr>c_line = int i, c_col_start = 0, c_col_end = 0, c_old_text = [], c_new_text = newL,
         c_timestamp = now_time_str, c_user_id = g_user_id, c_type = ''insert''\<rparr>)"

definition removed_line :: "string \<Rightarrow> string \<Rightarrow> nat \<Rightarrow> string \<Rightarrow> Change option" where
  "removed_line now_time_str g_user_id i oldL =
     (if oldL = [] then None
      else Some
        \<lparr>c_line = int i, c_col_start = 0, c_col_end = int (length oldL) - 1,
         c_old_text = oldL, c_new_text = [],
         c_timestamp = now_time_str, c_user_id = g_user_id, c_type = ''delete''\<rparr>)"

text \<open>
  The three loops of the change detection, in the order in which they push their
  operations: changed lines, lines added at the end, lines removed from the end.
\<close>

definition detect_changes :: "string \<Rightarrow> string \<Rightarrow> string list \<Rightarrow> string list \<Rightarrow> Change list" where
  "detect_changes now_time_str g_user_id prev_lines new_lines =
     (let common_lines = min (length prev_lines) (length new_lines)
      in List.map_filter
           (\<lambda>i. diff_line now_time_str g_user_id i (prev_lines ! i) (new_lines ! i))
           [0..<common_lines]
         @ List.map_filter (\<lambda>i. added_line now_time_str g_user_id i (new_lines ! i))
             [length prev_lines..<length new_lines]
         @ List.map_filter (\<lambda>i. removed_line now_time_str g_user_id i (prev_lines ! i))
             [length new_lines..<length prev_lines])"

section \<open>Notions used in the statements\<close>

text \<open>
  The words of the specification of \<^verbatim>\<open>register\<close>: a slot matches a user id when it is
  taken and \<^verbatim>\<open>strncmp\<close> finds its id equal, and it is free when its flag is 0.
\<close>

definition slot_matches :: "RegistrySegment \<Rightarrow> string \<Rightarrow> nat \<Rightarrow> bool" where
  "slot_matches seg u i =
     (active (users seg ! i) = 1 \<and>
      take USER_ID_MAX (c_str (user_id (users seg ! i))) = take USER_ID_MAX (c_str u))"

definition slot_free :: "RegistrySegment \<Rightarrow> nat \<Rightarrow> bool" where
  "slot_free seg i = (active (users seg ! i) = 0)"

text \<open>
  A received message is foreign when the drain loop's \<^verbatim>\<open>strncmp\<close> test against the local
  user id fails.
\<close>

definition foreign :: "string \<Rightarrow> UpdateMessage \<Rightarrow> bool" where
  "foreign g m = (strncmp (sender m) (c_str g) USER_ID_MAX \<noteq> 0)"

text \<open>
  The vector \<^verbatim>\<open>alive\<close> when the resolution loop has run over the vector \<^verbatim>\<open>all\<close>, every
  flag starting at 1: entry \<open>i\<close> is the final \<^verbatim>\<open>alive[i]\<close>.
\<close>

definition alive_flags :: "UpdateExt list \<Rightarrow> bool list" where
  "alive_flags all = map snd (resolve (map (\<lambda>u. (u, True)) all))"

text \<open>
  A chain, in the words of the specification: consecutive operations on the same line, by
  the same author, at the same \<open>col_start\<close>, the \<open>new_text\<close> of each being the \<open>old_text\<close>
  of the next. This is the test \<open>continues\<close> of the coalescing loop, on neighbours.
\<close>

fun is_chain :: "UpdateExt list \<Rightarrow> bool" where
  "is_chain [] = True"
| "is_chain [x] = True"
| "is_chain (x # y # ys) = (continues x y \<and> is_chain (y # ys))"

text \<open>
  The line of a document at an index; a line the document does not have reads as empty,
  as it does after the normalization that drops trailing empty lines. \<open>merged_line\<close> is
  that line of the document a merge returns.
\<close>

definition line_at :: "string list \<Rightarrow> nat \<Rightarrow> string" where
  "line_at lines n = (if n < length lines then lines ! n else [])"

definition merged_line ::
  "error + (bool \<times> string list \<times> UpdateExt list \<times> UpdateExt list) \<Rightarrow> 32 word \<Rightarrow> error + string" where
  "merged_line res L = map_sum id (\<lambda>r. line_at (fst (snd r)) (unat L)) res"

text \<open>
  Auxiliary notions of the proofs: an entry after the coalescing loop marked it, and the
  flags of the resolution loop with the marked entries counted as dead.
\<close>

definition tombstone :: "UpdateExt \<Rightarrow> UpdateExt" where
  "tombstone y = y\<lparr>old_text := MERGED\<rparr>"

definition effective :: "(UpdateExt \<times> bool) list \<Rightarrow> (UpdateExt \<times> bool) list" where
  "effective ys = map (\<lambda>p. (fst p, snd p \<and> old_text (fst p) \<noteq> MERGED)) ys"

section \<open>C strings: properties\<close>

lemma of_char_eq_0_iff: "(of_char c = (0::nat)) = (c = NUL)"
proof -
  have "of_char NUL = (0::nat)" by (simp add: NUL_def)
  then show ?thesis by (metis of_char_eq_iff)
qed

lemma c_str_Nil [simp]: "c_str [] = []"
  by (simp add: c_str_def)

lemma c_str_Cons: "c_str (x # xs) = (if x = NUL then [] else x # c_str xs)"
  by (simp add: c_str_def)

lemma c_str_idem [simp]: "c_str (c_str s) = c_str s"
  by (induction s) (simp_all add: c_str_Cons)

lemma c_str_id: "NUL \<notin> set s \<Longrightarrow> c_str s = s"
  by (induction s) (auto simp: c_str_Cons)

lemma strncmp_eq_0_iff: "(strncmp a b n = 0) = (take n (c_str a) = take n (c_str b))"
proof (induction a b n rule: strncmp.induct)
  case (5 x xs y ys n)
  then show ?case
    by (auto simp: c_str_Cons of_char_eq_0_iff)
qed (auto simp: c_str_Cons of_char_eq_0_iff)

section \<open>Registry: register\<close>

lemma register_existing_find:
  "register_existing seg u qn idx =
     (case find (slot_matches seg u) idx of
        None \<Rightarrow> None
      | Some i \<Rightarrow> Some (i, seg\<lparr>users := (users seg)
             [i := (users seg ! i)\<lparr>queue_name :=
                 snprintf QUEUE_NAME_MAX (case qn of Some q \<Rightarrow> q | None \<Rightarrow> [])\<rparr>]\<rparr>))"
  by (induction idx) (simp_all add: strncmp_eq_0_iff slot_matches_def)

lemma register_claim_find:
  "register_claim seg u qn idx =
     (case find (slot_free seg) idx of
        None \<Rightarrow> None
      | Some i \<Rightarrow> Some (i, seg\<lparr>users := (users seg)
             [i := (users seg ! i)\<lparr>active := 1,
                 user_id := snprintf USER_ID_MAX u,
                 queue_name := snprintf QUEUE_NAME_MAX (case qn of Some q \<Rightarrow> q | None \<Rightarrow> [])\<rparr>]\<rparr>))"
  by (induction idx) (simp_all add: compare_and_swap_def slot_free_def)

text \<open>
  Claim C6. On a segment with its \<open>MAX_USERS\<close> slots, \<^verbatim>\<open>registry_register\<close> run by one
  process at a time does the following. If some taken slot matches the user id, it returns
  0 with the first such slot and changes nothing but that slot's queue name. Otherwise, if
  some slot is free, it returns 0 with the first free slot, whose flag the compare-and-swap
  sets to 1 and into which the user id and the queue name are written (each cut to its
  buffer by \<^verbatim>\<open>snprintf\<close>). Otherwise it returns the error code -4, index -1, and changes
  nothing. The call fails exactly when no taken slot matches and no slot is free.
\<close>

theorem registry_register_semantics:
  assumes "length (users seg) = MAX_USERS"
  shows "(case find (slot_matches seg u) [0..<MAX_USERS] of
            Some i \<Rightarrow>
              registry_register seg u qn =
                (0, int i, seg\<lparr>users := (users seg)[i := (users seg ! i)\<lparr>queue_name :=
                   snprintf QUEUE_NAME_MAX (case qn of Some q \<Rightarrow> q | None \<Rightarrow> [])\<rparr>]\<rparr>)
          | None \<Rightarrow>
              (case find (slot_free seg) [0..<MAX_USERS] of
                 Some i \<Rightarrow>
                   registry_register seg u qn =
                     (0, int i, seg\<lparr>users := (users seg)[i := (users seg ! i)\<lparr>active := 1,
                        user_id := snprintf USER_ID_MAX u,
                        queue_name :=
                          snprintf QUEUE_NAME_MAX (case qn of Some q \<Rightarrow> q | None \<Rightarrow> [])\<rparr>]\<rparr>)
               | None \<Rightarrow> registry_register seg u qn = (- 4, - 1, seg)))
       \<and> ((fst (registry_register seg u qn) = - 4) =
            ((\<forall>i < MAX_USERS. \<not> slot_matches seg u i) \<and> (\<forall>i < MAX_USERS. \<not> slot_free seg i)))"
proof -
  have n1: "(find (slot_matches seg u) [0..<MAX_USERS] = None) = (\<forall>i < MAX_USERS. \<not> slot_matches seg u i)"
    by (auto simp: find_None_iff)
  have n2: "(find (slot_free seg) [0..<MAX_USERS] = None) = (\<forall>i < MAX_USERS. \<not> slot_free seg i)"
    by (auto simp: find_None_iff)
  show ?thesis
    unfolding n1[symmetric] n2[symmetric]
    by (simp add: registry_register_def register_existing_find register_claim_find
        split: option.splits)
qed

theorem registry_register_semantics_witness:
  "length (users \<lparr>magic = 0x53595854, version = 1,
       users = [\<lparr>active = 1, user_id = ''user_1'', queue_name = ''/queue_user_1''\<rparr>,
                \<lparr>active = 0, user_id = [], queue_name = []\<rparr>,
                \<lparr>active = 0, user_id = [], queue_name = []\<rparr>,
                \<lparr>active = 0, user_id = [], queue_name = []\<rparr>,
                \<lparr>active = 0, user_id = [], queue_name = []\<rparr>]\<rparr>) = MAX_USERS
   \<and> registry_register \<lparr>magic = 0x53595854, version = 1,
       users = [\<lparr>active = 1, user_id = ''user_1'', queue_name = ''/queue_user_1''\<rparr>,
                \<lparr>active = 0, user_id = [], queue_name = []\<rparr>,
                \<lparr>active = 0, user_id = [], queue_name = []\<rparr>,
                \<lparr>active = 0, user_id = [], queue_name = []\<rparr>,
                \<lparr>active = 0, user_id = [], queue_name = []\<rparr>]\<rparr> ''user_2'' (Some ''/queue_user_2'') =
       (0, 1, \<lparr>magic = 0x53595854, version = 1,
       users = [\<lparr>active = 1, user_id = ''user_1'', queue_name = ''/queue_user_1''\<rparr>,
                \<lparr>active = 1, user_id = ''user_2'', queue_name = ''/queue_user_2''\<rparr>,
                \<lparr>active = 0, user_id = [], queue_name = []\<rparr>,
                \<lparr>active = 0, user_id = [], queue_name = []\<rparr>,
                \<lparr>active = 0, user_id = [], queue_name = []\<rparr>]\<rparr>)"
proof -
  let ?seg = "\<lparr>magic = 0x53595854, version = 1,
       users = [\<lparr>active = 1, user_id = ''user_1'', queue_name = ''/queue_user_1''\<rparr>,
                \<lparr>active = 0, user_id = [], queue_name = []\<rparr>,
                \<lparr>active = 0, user_id = [], queue_name = []\<rparr>,
                \<lparr>active = 0, user_id = [], queue_name = []\<rparr>,
                \<lparr>active = 0, user_id = [], queue_name = []\<rparr>]\<rparr>"
  have l: "length (users ?seg) = MAX_USERS" by (simp add: MAX_USERS_def)
  have u: "[0..<MAX_USERS] = [0, 1, 2, 3, 4]" by (simp add: MAX_USERS_def upt_rec)
  have m: "find (slot_matches ?seg ''user_2'') [0..<MAX_USERS] = None"
    unfolding u by (simp add: slot_matches_def c_str_def NUL_def USER_ID_MAX_def)
  have f: "find (slot_free ?seg) [0..<MAX_USERS] = Some 1"
    unfolding u by (simp add: slot_free_def)
  from registry_register_semantics[OF l, of "''user_2''" "Some ''/queue_user_2''"] l
  show ?thesis
    by (simp add: m f snprintf_def c_str_def NUL_def USER_ID_MAX_def QUEUE_NAME_MAX_def)
qed

section \<open>Receive ring: properties\<close>

lemma length_ring_items: "length (ring_items r) = ring_count r"
  by (simp add: ring_items_def)

text \<open>Index arithmetic modulo the capacity.\<close>

lemma ring_mod_succ: "h < (n::nat) \<Longrightarrow> (h + 1) mod n = (if h + 1 = n then 0 else h + 1)"
proof (cases "h + 1 = n")
  case True
  then show ?thesis by simp
next
  case False
  assume "h < n"
  with False have "h + 1 < n" by simp
  then show ?thesis using False by (simp only: mod_less if_False)
qed

lemma ring_mod_dist: "h < (n::nat) \<Longrightarrow> t < n \<Longrightarrow> (h + n - t) mod n = (if t \<le> h then h - t else h + n - t)"
proof (cases "t \<le> h")
  case True
  assume "h < n" "t < n"
  with True have e: "h + n - t = (h - t) + n" and l: "h - t < n" by simp_all
  have "(h + n - t) mod n = (h - t) mod n" unfolding e by (rule mod_add_self2)
  also have "\<dots> = h - t" using l by (rule mod_less)
  finally show ?thesis using True by (simp only: if_True)
next
  case False
  assume "h < n" "t < n"
  with False have "h + n - t < n" by simp
  then have "(h + n - t) mod n = h + n - t" by (rule mod_less)
  then show ?thesis using False by (simp only: if_False)
qed

lemma ring_mod_slot: "t < (n::nat) \<Longrightarrow> k < n \<Longrightarrow> (t + k) mod n = (if t + k < n then t + k else t + k - n)"
proof (cases "t + k < n")
  case True
  then show ?thesis by (simp only: mod_less if_True)
next
  case False
  assume "t < n" "k < n"
  with False have l: "t + k - n < n" and e: "t + k = (t + k - n) + n" by simp_all
  have "(t + k) mod n = ((t + k - n) + n) mod n" using e by (rule arg_cong)
  also have "\<dots> = (t + k - n) mod n" by (rule mod_add_self2)
  also have "\<dots> = t + k - n" using l by (rule mod_less)
  finally show ?thesis using False by (simp only: if_False)
qed

lemma ring_count_push:
  assumes "h < (n::nat)" "t < n" "(h + 1) mod n \<noteq> t"
  shows "((h + 1) mod n + n - t) mod n = (h + n - t) mod n + 1"
proof -
  define x where "x = (h + 1) mod n"
  have x: "x = (if h + 1 = n then 0 else h + 1)"
    unfolding x_def by (rule ring_mod_succ[OF assms(1)])
  have xl: "x < n" unfolding x_def using assms(1) by simp
  have ne: "x \<noteq> t" using assms(3) unfolding x_def .
  have b: "(x + n - t) mod n = (if t \<le> x then x - t else x + n - t)"
    by (rule ring_mod_dist[OF xl assms(2)])
  have c: "(h + n - t) mod n = (if t \<le> h then h - t else h + n - t)"
    by (rule ring_mod_dist[OF assms(1,2)])
  have "(x + n - t) mod n = (h + n - t) mod n + 1"
    unfolding b c using x ne assms(1,2) by (auto split: if_splits)
  then show ?thesis unfolding x_def .
qed

lemma ring_slot_push:
  assumes "h < (n::nat)" "t < n"
  shows "(t + (h + n - t) mod n) mod n = h"
proof -
  define c where "c = (h + n - t) mod n"
  have c: "c = (if t \<le> h then h - t else h + n - t)"
    unfolding c_def by (rule ring_mod_dist[OF assms(1,2)])
  have lt: "c < n" unfolding c_def using assms(1) by simp
  have d: "(t + c) mod n = (if t + c < n then t + c else t + c - n)"
    by (rule ring_mod_slot[OF assms(2) lt])
  have "(t + c) mod n = h"
    unfolding d using c assms by (auto split: if_splits)
  then show ?thesis unfolding c_def .
qed

lemma ring_slot_fresh:
  assumes "h < (n::nat)" "t < n" "k < (h + n - t) mod n"
  shows "(t + k) mod n \<noteq> h"
proof -
  define c where "c = (h + n - t) mod n"
  have c: "c = (if t \<le> h then h - t else h + n - t)"
    unfolding c_def by (rule ring_mod_dist[OF assms(1,2)])
  have lt: "c < n" unfolding c_def using assms(1) by simp
  have kc: "k < c" using assms(3) unfolding c_def .
  with lt have k: "k < n" by simp
  have d: "(t + k) mod n = (if t + k < n then t + k else t + k - n)"
    by (rule ring_mod_slot[OF assms(2) k])
  show ?thesis
    unfolding d using c kc assms(1,2) by (auto split: if_splits)
qed

lemma ring_full_iff:
  assumes "h < (n::nat)" "t < n"
  shows "((h + 1) mod n = t) = ((h + n - t) mod n = n - 1)"
proof -
  define x where "x = (h + 1) mod n"
  have x: "x = (if h + 1 = n then 0 else h + 1)"
    unfolding x_def by (rule ring_mod_succ[OF assms(1)])
  have c: "(h + n - t) mod n = (if t \<le> h then h - t else h + n - t)"
    by (rule ring_mod_dist[OF assms(1,2)])
  have "(x = t) = ((h + n - t) mod n = n - 1)"
    unfolding c using x assms by (auto split: if_splits)
  then show ?thesis unfolding x_def .
qed

lemma ring_count_pop:
  assumes "h < (n::nat)" "t < n" "t \<noteq> h"
  shows "(h + n - t) mod n = Suc ((h + n - (t + 1) mod n) mod n)"
proof -
  define x where "x = (t + 1) mod n"
  have x: "x = (if t + 1 = n then 0 else t + 1)"
    unfolding x_def by (rule ring_mod_succ[OF assms(2)])
  have xl: "x < n" unfolding x_def using assms(2) by simp
  have b: "(h + n - x) mod n = (if x \<le> h then h - x else h + n - x)"
    by (rule ring_mod_dist[OF assms(1) xl])
  have c: "(h + n - t) mod n = (if t \<le> h then h - t else h + n - t)"
    by (rule ring_mod_dist[OF assms(1,2)])
  have "(h + n - t) mod n = Suc ((h + n - x) mod n)"
    unfolding b c using x assms by (auto split: if_splits)
  then show ?thesis unfolding x_def .
qed

lemma ring_slot_pop: "((t + 1) mod n + k) mod n = (t + Suc k) mod (n::nat)"
proof -
  have "((t + 1) mod n + k) mod n = (t + 1 + k) mod n" by (rule mod_add_left_eq)
  also have "t + 1 + k = t + Suc k" by simp
  finally show ?thesis .
qed

lemma ring_empty_iff:
  assumes "h < (n::nat)" "t < n"
  shows "(t = h) = ((h + n - t) mod n = 0)"
proof -
  have c: "(h + n - t) mod n = (if t \<le> h then h - t else h + n - t)"
    by (rule ring_mod_dist[OF assms(1,2)])
  show ?thesis
    unfolding c using assms by (auto split: if_splits)
qed

lemma push_accepts:
  assumes "ring_wf r" and "push r v = (True, r')"
  shows "ring_wf r' \<and> ring_items r' = ring_items r @ [v]"
proof -
  from assms have nf: "(head r + 1) mod CAP \<noteq> tail r"
    and r': "r' = r\<lparr>data := (data r)[head r := v], head := (head r + 1) mod CAP\<rparr>"
    by (auto simp: push_def Let_def split: if_splits)
  from assms(1) have h: "head r < CAP" and t: "tail r < CAP" and l: "length (data r) = CAP"
    by (simp_all add: ring_wf_def)
  have wf: "ring_wf r'"
    using h t l by (simp add: r' ring_wf_def)
  have cnt: "ring_count r' = ring_count r + 1"
    using ring_count_push[OF h t nf] by (simp add: r' ring_count_def)
  have old: "map (\<lambda>k. data r' ! ((tail r' + k) mod CAP)) [0..<ring_count r] = ring_items r"
    unfolding ring_items_def
  proof (rule map_cong[OF refl])
    fix k assume "k \<in> set [0..<ring_count r]"
    then have "k < (head r + CAP - tail r) mod CAP"
      by (simp add: ring_count_def)
    from ring_slot_fresh[OF h t this]
    show "data r' ! ((tail r' + k) mod CAP) = data r ! ((tail r + k) mod CAP)"
      by (simp add: r')
  qed
  have new: "data r' ! ((tail r' + ring_count r) mod CAP) = v"
    using ring_slot_push[OF h t] h l by (simp add: r' ring_count_def)
  have "ring_items r' = map (\<lambda>k. data r' ! ((tail r' + k) mod CAP)) [0..<ring_count r]
          @ [data r' ! ((tail r' + ring_count r) mod CAP)]"
    by (simp add: ring_items_def cnt)
  with old new wf show ?thesis by simp
qed

lemma push_rejects:
  assumes "ring_wf r"
  shows "(fst (push r v) = False) = (ring_count r = CAP - 1)"
    and "fst (push r v) = False \<Longrightarrow> snd (push r v) = r"
proof -
  from assms have h: "head r < CAP" and t: "tail r < CAP"
    by (simp_all add: ring_wf_def)
  have "((head r + 1) mod CAP = tail r) = ((head r + CAP - tail r) mod CAP = CAP - 1)"
    by (rule ring_full_iff[OF h t])
  then show "(fst (push r v) = False) = (ring_count r = CAP - 1)"
    by (simp add: push_def Let_def ring_count_def)
  show "fst (push r v) = False \<Longrightarrow> snd (push r v) = r"
    by (simp add: push_def Let_def split: if_splits)
qed

lemma pop_takes:
  assumes "ring_wf r" and "pop r = (Some v, r')"
  shows "ring_wf r' \<and> ring_items r = v # ring_items r' \<and> ring_count r = Suc (ring_count r')"
proof -
  from assms have ne: "tail r \<noteq> head r"
    and r': "r' = r\<lparr>tail := (tail r + 1) mod CAP\<rparr>" and v: "v = data r ! tail r"
    by (auto simp: pop_def Let_def split: if_splits)
  from assms(1) have h: "head r < CAP" and t: "tail r < CAP" and l: "length (data r) = CAP"
    by (simp_all add: ring_wf_def)
  have wf: "ring_wf r'"
    using h t l by (simp add: r' ring_wf_def)
  have cnt: "ring_count r = Suc (ring_count r')"
    using ring_count_pop[OF h t ne] by (simp add: r' ring_count_def)
  have "[0..<Suc (ring_count r')] = 0 # map Suc [0..<ring_count r']"
    by (simp only: upt_conv_Cons[OF zero_less_Suc] map_Suc_upt)
  then have "ring_items r =
      data r ! ((tail r + 0) mod CAP) # map (\<lambda>k. data r ! ((tail r + Suc k) mod CAP)) [0..<ring_count r']"
    unfolding ring_items_def cnt by (simp add: comp_def)
  moreover have "(tail r + 0) mod CAP = tail r"
    using t by simp
  moreover have "(Suc (tail r) mod CAP + k) mod CAP = Suc (tail r + k) mod CAP" for k
    using ring_slot_pop[of "tail r" CAP k] by simp
  then have "map (\<lambda>k. data r ! ((tail r + Suc k) mod CAP)) [0..<ring_count r'] = ring_items r'"
    by (simp add: ring_items_def r')
  ultimately show ?thesis using wf cnt v by simp
qed

lemma pop_empty:
  assumes "ring_wf r"
  shows "(fst (pop r) = None) = (ring_count r = 0)"
    and "fst (pop r) = None \<Longrightarrow> snd (pop r) = r"
proof -
  from assms have h: "head r < CAP" and t: "tail r < CAP"
    by (simp_all add: ring_wf_def)
  have "(tail r = head r) = ((head r + CAP - tail r) mod CAP = 0)"
    by (rule ring_empty_iff[OF h t])
  then show "(fst (pop r) = None) = (ring_count r = 0)"
    by (simp add: pop_def Let_def ring_count_def)
  show "fst (pop r) = None \<Longrightarrow> snd (pop r) = r"
    by (simp add: pop_def Let_def split: if_splits)
qed

lemma run_calls_invariant:
  assumes "ring_wf r" and "pushed = popped @ ring_items r"
    and "run_calls r pushed popped calls = (r', pushed', popped')"
  shows "ring_wf r' \<and> pushed' = popped' @ ring_items r'"
  using assms
proof (induction calls arbitrary: r pushed popped)
  case Nil
  then show ?case by auto
next
  case (Cons c calls)
  show ?case
  proof (cases c)
    case (Push v)
    obtain ok r1 where p: "push r v = (ok, r1)" by (cases "push r v")
    show ?thesis
    proof (cases ok)
      case True
      with p have "push r v = (True, r1)" by simp
      from push_accepts[OF Cons.prems(1) this]
      have "ring_wf r1 \<and> ring_items r1 = ring_items r @ [v]" .
      with Cons.prems(2) have "ring_wf r1" "pushed @ [v] = popped @ ring_items r1" by simp_all
      moreover have "run_calls r1 (pushed @ [v]) popped calls = (r', pushed', popped')"
        using Cons.prems(3) Push p True by simp
      ultimately show ?thesis using Cons.IH by blast
    next
      case False
      with p push_rejects(2)[OF Cons.prems(1), of v] have "r1 = r" by simp
      moreover have "run_calls r1 pushed popped calls = (r', pushed', popped')"
        using Cons.prems(3) Push p False by simp
      ultimately show ?thesis using Cons.IH Cons.prems(1,2) by blast
    qed
  next
    case Pop
    obtain res r1 where p: "pop r = (res, r1)" by (cases "pop r")
    show ?thesis
    proof (cases res)
      case None
      with p pop_empty(2)[OF Cons.prems(1)] have "r1 = r" by simp
      moreover have "run_calls r1 pushed popped calls = (r', pushed', popped')"
        using Cons.prems(3) Pop p None by simp
      ultimately show ?thesis using Cons.IH Cons.prems(1,2) by blast
    next
      case (Some v)
      with p have "pop r = (Some v, r1)" by simp
      from pop_takes[OF Cons.prems(1) this]
      have "ring_wf r1 \<and> ring_items r = v # ring_items r1" by simp
      with Cons.prems(2) have "ring_wf r1" "pushed = (popped @ [v]) @ ring_items r1" by simp_all
      moreover have "run_calls r1 pushed (popped @ [v]) calls = (r', pushed', popped')"
        using Cons.prems(3) Pop p Some by simp
      ultimately show ?thesis using Cons.IH by blast
    qed
  qed
qed

text \<open>
  Claim C7. Start from the empty ring and run any sequence of \<^verbatim>\<open>push\<close> and \<^verbatim>\<open>pop\<close> calls,
  one after the other. The items popped, in order, are a prefix of the items pushed (the
  items whose \<^verbatim>\<open>push\<close> returned \<^verbatim>\<open>true\<close>), position by position, so none is popped
  twice, and the ring holds exactly the rest. The next \<^verbatim>\<open>push\<close> fails exactly when the ring
  holds \<open>CAP - 1\<close> items, which is the condition \<open>(head + 1) mod CAP = tail\<close>; the next
  \<^verbatim>\<open>pop\<close> fails exactly when the ring holds none, which is \<open>head = tail\<close>.
\<close>

theorem ring_spsc:
  assumes "length ds = CAP"
    and "run_calls \<lparr>head = 0, tail = 0, data = ds\<rparr> [] [] calls = (r, pushed, popped)"
  shows "prefix popped pushed
       \<and> pushed = popped @ ring_items r
       \<and> (fst (push r v) = False) = (length pushed - length popped = CAP - 1)
       \<and> (fst (push r v) = False) = ((head r + 1) mod CAP = tail r)
       \<and> (fst (pop r) = None) = (length pushed = length popped)
       \<and> (fst (pop r) = None) = (head r = tail r)"
proof -
  have wf0: "ring_wf \<lparr>head = 0, tail = 0, data = ds\<rparr>"
    using assms(1) by (simp add: ring_wf_def CAP_def)
  have "[] = [] @ ring_items \<lparr>head = 0, tail = 0, data = ds\<rparr>"
    by (simp add: ring_items_def ring_count_def)
  from run_calls_invariant[OF wf0 this assms(2)]
  have wf: "ring_wf r" and items: "pushed = popped @ ring_items r" by simp_all
  have held: "length pushed - length popped = ring_count r"
    by (simp add: items length_ring_items)
  have same: "(length pushed = length popped) = (ring_count r = 0)"
    by (simp add: items length_ring_items)
  have full: "(fst (push r v) = False) = ((head r + 1) mod CAP = tail r)"
    by (simp add: push_def Let_def)
  have empty: "(fst (pop r) = None) = (head r = tail r)"
    by (auto simp: pop_def Let_def)
  show ?thesis
    unfolding held same full[symmetric] empty[symmetric]
    using items push_rejects(1)[OF wf, of v] pop_empty(1)[OF wf] by simp
qed

theorem ring_spsc_witness:
  "length (replicate CAP (0::nat)) = CAP
   \<and> snd (run_calls \<lparr>head = 0, tail = 0, data = replicate CAP (0::nat)\<rparr> [] []
        [Push 1, Push 2, Pop, Push 3]) = ([1, 2, 3], [1])
   \<and> prefix [1] [1, 2, 3::nat]
   \<and> ring_items (fst (run_calls \<lparr>head = 0, tail = 0, data = replicate CAP (0::nat)\<rparr> [] []
        [Push 1, Push 2, Pop, Push 3])) = [2, 3]
   \<and> fst (push (fst (run_calls \<lparr>head = 0, tail = 0, data = replicate CAP (0::nat)\<rparr> [] []
        [Push 1, Push 2, Pop, Push 3])) 4)"
proof -
  obtain r where run: "run_calls \<lparr>head = 0, tail = 0, data = replicate CAP (0::nat)\<rparr> [] []
        [Push 1, Push 2, Pop, Push 3] = (r, [1, 2, 3], [1])"
    by (simp add: push_def pop_def CAP_def Let_def)
  have len: "length (replicate CAP (0::nat)) = CAP" by simp
  from ring_spsc[OF len run, of 4] show ?thesis
    using run by (simp add: CAP_def)
qed

section \<open>Editor loop: draining the receive ring\<close>

lemma drain_returns:
  assumes "ring_wf r" and "ring_count r = n"
  shows "\<exists>r'. drain r g (recv, got, l) =
           Some (r', recv @ map to_ext (filter (foreign g) (ring_items r)),
             got \<or> filter (foreign g) (ring_items r) \<noteq> [],
             (case rev (filter (foreign g) (ring_items r)) of
                [] \<Rightarrow> l | m # _ \<Rightarrow> snprintf USER_ID_MAX (sender m)))
         \<and> ring_wf r' \<and> ring_items r' = []"
  using assms
proof (induction n arbitrary: r recv got l)
  case 0
  then have "fst (pop r) = None" "snd (pop r) = r"
    using pop_empty[of r] by simp_all
  then have e: "pop r = (None, r)"
    by (metis prod.collapse)
  have "ring_items r = []"
    using 0 by (simp add: ring_items_def)
  then show ?case
    using 0 e by (subst drain.simps) simp
next
  case (Suc n)
  obtain res r1 where p: "pop r = (res, r1)" by (cases "pop r")
  with Suc.prems pop_empty(1)[of r] have "res \<noteq> None" by auto
  then obtain tmp where res: "res = Some tmp" by auto
  from pop_takes[OF Suc.prems(1) p[unfolded res]]
  have wf1: "ring_wf r1" and items: "ring_items r = tmp # ring_items r1"
    and cnt: "ring_count r1 = n"
    using Suc.prems(2) by simp_all
  show ?case
  proof (cases "foreign g tmp")
    case False
    from Suc.IH[OF wf1 cnt, of recv got l] obtain r' where
      "drain r1 g (recv, got, l) =
           Some (r', recv @ map to_ext (filter (foreign g) (ring_items r1)),
             got \<or> filter (foreign g) (ring_items r1) \<noteq> [],
             (case rev (filter (foreign g) (ring_items r1)) of
                [] \<Rightarrow> l | m # _ \<Rightarrow> snprintf USER_ID_MAX (sender m)))"
      "ring_wf r'" "ring_items r' = []" by blast
    then show ?thesis
      using False p res items by (subst drain.simps) (simp add: foreign_def)
  next
    case True
    from Suc.IH[OF wf1 cnt, of "recv @ [to_ext tmp]" True "snprintf USER_ID_MAX (sender tmp)"]
    obtain r' where
      "drain r1 g (recv @ [to_ext tmp], True, snprintf USER_ID_MAX (sender tmp)) =
           Some (r', (recv @ [to_ext tmp]) @ map to_ext (filter (foreign g) (ring_items r1)),
             True \<or> filter (foreign g) (ring_items r1) \<noteq> [],
             (case rev (filter (foreign g) (ring_items r1)) of
                [] \<Rightarrow> snprintf USER_ID_MAX (sender tmp) | m # _ \<Rightarrow> snprintf USER_ID_MAX (sender m)))"
      "ring_wf r'" "ring_items r' = []" by blast
    then show ?thesis
      using True p res items
      by (subst drain.simps) (auto simp: foreign_def split: list.splits)
  qed
qed

text \<open>
  Claim C9. On a well-formed ring the drain loop returns. What it appends to
  \<^verbatim>\<open>recv_unmerged\<close> is, in order, the conversion of exactly those queued messages whose
  sender \<^verbatim>\<open>strncmp\<close> finds different from the local user id; every message whose sender
  equals the local user id is dropped. So no appended operation has the local user id as
  its uid, and when the local id fits the sender field (fewer than \<open>USER_ID_MAX\<close> bytes)
  no message this peer built with \<^verbatim>\<open>to_message\<close> is ever appended. Both drain passes of
  the editor loop are this loop.
\<close>

theorem drain_filters_self:
  assumes "ring_wf g_recv_buf"
  shows "\<exists>r' added got last.
           drain g_recv_buf g_user_id (recv_unmerged, got_remote_updates, g_last_sender) =
             Some (r', recv_unmerged @ added, got, last)
         \<and> added = map to_ext (filter (foreign g_user_id) (ring_items g_recv_buf))
         \<and> ring_items r' = []
         \<and> (\<forall>e \<in> set added. uid e \<noteq> g_user_id)
         \<and> (length (c_str g_user_id) < USER_ID_MAX \<longrightarrow>
              (\<forall>now c. \<not> foreign g_user_id (to_message g_user_id now c)))"
proof -
  from drain_returns[OF assms refl, of g_user_id recv_unmerged got_remote_updates g_last_sender]
  obtain r' where d: "drain g_recv_buf g_user_id (recv_unmerged, got_remote_updates, g_last_sender) =
           Some (r', recv_unmerged @ map to_ext (filter (foreign g_user_id) (ring_items g_recv_buf)),
             got_remote_updates \<or> filter (foreign g_user_id) (ring_items g_recv_buf) \<noteq> [],
             (case rev (filter (foreign g_user_id) (ring_items g_recv_buf)) of
                [] \<Rightarrow> g_last_sender | m # _ \<Rightarrow> snprintf USER_ID_MAX (sender m)))"
    and e: "ring_items r' = []" by blast
  have u: "uid (to_ext m) \<noteq> g_user_id" if "foreign g_user_id m" for m
  proof
    assume "uid (to_ext m) = g_user_id"
    then have "c_str (sender m) = g_user_id" by (simp add: to_ext_def)
    then have "take USER_ID_MAX (c_str (sender m)) = take USER_ID_MAX (c_str (c_str g_user_id))"
      by (metis c_str_idem)
    with that show False by (simp add: foreign_def strncmp_eq_0_iff)
  qed
  have own: "\<not> foreign g_user_id (to_message g_user_id now c)"
    if "length (c_str g_user_id) < USER_ID_MAX" for now c
    using that by (simp add: foreign_def strncmp_eq_0_iff to_message_def snprintf_def)
  from d e u own show ?thesis by auto
qed

theorem drain_filters_self_witness:
  "ring_wf \<lparr>head = 2, tail = 0, data =
       \<lparr>sender = ''user_1'', timestamp_ns = 1000, m_line = 0, col_start = 8, col_end = 9,
        m_op = Replace, m_old_text = ''10'', m_new_text = ''11''\<rparr>
     # \<lparr>sender = ''user_2'', timestamp_ns = 2000, m_line = 0, col_start = 8, col_end = 9,
        m_op = Replace, m_old_text = ''10'', m_new_text = ''22''\<rparr>
     # replicate 126 \<lparr>sender = [], timestamp_ns = 0, m_line = 0, col_start = 0, col_end = 0,
        m_op = Insert, m_old_text = [], m_new_text = []\<rparr>\<rparr>
   \<and> length (c_str ''user_1'') < USER_ID_MAX
   \<and> (\<exists>r' got last.
        drain \<lparr>head = 2, tail = 0, data =
            \<lparr>sender = ''user_1'', timestamp_ns = 1000, m_line = 0, col_start = 8, col_end = 9,
             m_op = Replace, m_old_text = ''10'', m_new_text = ''11''\<rparr>
          # \<lparr>sender = ''user_2'', timestamp_ns = 2000, m_line = 0, col_start = 8, col_end = 9,
             m_op = Replace, m_old_text = ''10'', m_new_text = ''22''\<rparr>
          # replicate 126 \<lparr>sender = [], timestamp_ns = 0, m_line = 0, col_start = 0, col_end = 0,
             m_op = Insert, m_old_text = [], m_new_text = []\<rparr>\<rparr>
          ''user_1'' ([], False, []) =
        Some (r',
          [\<lparr>ts = 2000, uid = ''user_2'', line = 0, cs = 8, ce = 9, op = Replace,
            old_text = ''10'', new_text = ''22''\<rparr>], got, last))"
proof -
  let ?m1 = "\<lparr>sender = ''user_1'', timestamp_ns = 1000, m_line = 0, col_start = 8, col_end = 9,
        m_op = Replace, m_old_text = ''10'', m_new_text = ''11''\<rparr>"
  let ?m2 = "\<lparr>sender = ''user_2'', timestamp_ns = 2000, m_line = 0, col_start = 8, col_end = 9,
        m_op = Replace, m_old_text = ''10'', m_new_text = ''22''\<rparr>"
  let ?m0 = "\<lparr>sender = [], timestamp_ns = 0, m_line = 0, col_start = 0, col_end = 0,
        m_op = Insert, m_old_text = [], m_new_text = []\<rparr>"
  let ?r = "\<lparr>head = 2, tail = 0, data = ?m1 # ?m2 # replicate 126 ?m0\<rparr>"
  have wf: "ring_wf ?r" by (simp add: ring_wf_def CAP_def)
  have "[0..<2] = [0, Suc 0]" by (simp add: upt_rec)
  then have items: "ring_items ?r = [?m1, ?m2]"
    by (simp add: ring_items_def ring_count_def CAP_def)
  have n: "[0..<USER_ID_MAX] \<noteq> []" by (simp add: USER_ID_MAX_def)
  have f1: "\<not> foreign ''user_1'' ?m1"
    by (simp add: foreign_def strncmp_eq_0_iff)
  have f2: "foreign ''user_1'' ?m2"
    by (simp add: foreign_def strncmp_eq_0_iff c_str_def NUL_def USER_ID_MAX_def)
  have l: "length (c_str ''user_1'') < USER_ID_MAX"
    by (simp add: c_str_def NUL_def USER_ID_MAX_def)
  have e: "to_ext ?m2 = \<lparr>ts = 2000, uid = ''user_2'', line = 0, cs = 8, ce = 9, op = Replace,
            old_text = ''10'', new_text = ''22''\<rparr>"
    by (simp add: to_ext_def c_str_def NUL_def)
  from drain_filters_self[OF wf, of "''user_1''" "[]" False "[]"]
  show ?thesis
    using wf l by (auto simp: items f1 f2 e)
qed

section \<open>Change synthesis: the column fields\<close>

lemma diff_line_col_end:
  assumes "diff_line t u i oldL newL = Some c"
  shows "c_col_end c = (if c_old_text c = [] then c_col_start c
                        else c_col_start c + int (length (c_old_text c)) - 1)"
proof -
  define fd where "fd = common_prefix oldL newL (min (int (length oldL)) (int (length newL))) 0"
  define sl where "sl = common_suffix oldL newL fd 0"
  define os where "os = (if int (length oldL) - fd - sl > 0
    then take (nat (int (length oldL) - fd - sl)) (drop (nat fd) oldL) else [])"
  define ns where "ns = (if int (length newL) - fd - sl > 0
    then take (nat (int (length newL) - fd - sl)) (drop (nat fd) newL) else [])"
  have "diff_line t u i oldL newL =
      (if oldL = newL then None
       else if os = ns then None
       else Some
         \<lparr>c_line = int i, c_col_start = fd,
          c_col_end = (if os = [] then fd else fd + int (length os) - 1),
          c_old_text = os, c_new_text = ns, c_timestamp = t, c_user_id = u,
          c_type = (if os = [] \<and> ns \<noteq> [] then ''insert''
                    else if os \<noteq> [] \<and> ns = [] then ''delete'' else ''replace'')\<rparr>)"
    unfolding diff_line_def Let_def os_def ns_def sl_def fd_def by (rule refl)
  with assms have "c =
         \<lparr>c_line = int i, c_col_start = fd,
          c_col_end = (if os = [] then fd else fd + int (length os) - 1),
          c_old_text = os, c_new_text = ns, c_timestamp = t, c_user_id = u,
          c_type = (if os = [] \<and> ns \<noteq> [] then ''insert''
                    else if os \<noteq> [] \<and> ns = [] then ''delete'' else ''replace'')\<rparr>"
    by (simp split: if_splits)
  then show ?thesis by simp
qed

lemma added_line_col_end:
  "added_line t u i newL = Some c \<Longrightarrow>
   c_col_end c = (if c_old_text c = [] then c_col_start c
                  else c_col_start c + int (length (c_old_text c)) - 1)"
  by (auto simp: added_line_def split: if_splits)

lemma removed_line_col_end:
  "removed_line t u i oldL = Some c \<Longrightarrow>
   c_col_end c = (if c_old_text c = [] then c_col_start c
                  else c_col_start c + int (length (c_old_text c)) - 1)"
  by (auto simp: removed_line_def split: if_splits)

lemma in_map_filterD: "y \<in> set (List.map_filter f xs) \<Longrightarrow> \<exists>x \<in> set xs. f x = Some y"
  by (induction xs) (auto split: option.splits)

lemma detect_changes_col_end:
  assumes "c \<in> set (detect_changes t u prev_lines new_lines)"
  shows "c_col_end c = (if c_old_text c = [] then c_col_start c
                        else c_col_start c + int (length (c_old_text c)) - 1)"
proof -
  from assms consider
      i where "diff_line t u i (prev_lines ! i) (new_lines ! i) = Some c"
    | i where "added_line t u i (new_lines ! i) = Some c"
    | i where "removed_line t u i (prev_lines ! i) = Some c"
    by (auto simp: detect_changes_def Let_def dest!: in_map_filterD)
  then show ?thesis
  proof cases
    case 1
    then show ?thesis by (rule diff_line_col_end)
  next
    case 2
    then show ?thesis by (rule added_line_col_end)
  next
    case 3
    then show ?thesis by (rule removed_line_col_end)
  qed
qed

text \<open>
  Claim C8, as the code has it. Every operation that the change detection synthesizes has
  \<open>col_end = col_start + len(old_text) - 1\<close> when its \<open>old_text\<close> is not empty, and
  \<open>col_end = col_start\<close> when it is empty (a pure insertion). This holds of the merge-form
  record, and of the wire-form record whenever \<open>old_text\<close> fits its buffer unchanged (no NUL
  byte, fewer than \<open>TEXT_SEG_MAX\<close> bytes).
\<close>

theorem col_end_invariant:
  assumes "c \<in> set (detect_changes t u prev_lines new_lines)"
  shows "(let e = change_to_ext u now c
          in ce e = (if old_text e = [] then cs e else cs e + int (length (old_text e)) - 1))
       \<and> (NUL \<notin> set (c_old_text c) \<and> length (c_old_text c) < TEXT_SEG_MAX \<longrightarrow>
            (let m = to_message u now c
             in col_end m = (if m_old_text m = [] then col_start m
                             else col_start m + int (length (m_old_text m)) - 1)))"
  using detect_changes_col_end[OF assms]
  by (simp add: change_to_ext_def to_message_def snprintf_def c_str_id Let_def TEXT_SEG_MAX_def)

lemma detect_replace_example:
  "detect_changes ''12:00:00'' ''user_1''
     [''int x = 10;'', ''int y = 20;'', ''int z = 30;'']
     [''int x = 42;'', ''int y = 20;'', ''int z = 30;''] =
      [\<lparr>c_line = 0, c_col_start = 8, c_col_end = 9, c_old_text = ''10'', c_new_text = ''42'',
        c_timestamp = ''12:00:00'', c_user_id = ''user_1'', c_type = ''replace''\<rparr>]"
  by code_simp

theorem col_end_invariant_witness:
  "\<lparr>c_line = 0, c_col_start = 8, c_col_end = 9, c_old_text = ''10'', c_new_text = ''42'',
     c_timestamp = ''12:00:00'', c_user_id = ''user_1'', c_type = ''replace''\<rparr>
     \<in> set (detect_changes ''12:00:00'' ''user_1''
           [''int x = 10;'', ''int y = 20;'', ''int z = 30;'']
           [''int x = 42;'', ''int y = 20;'', ''int z = 30;''])
   \<and> NUL \<notin> set ''10'' \<and> length ''10'' < TEXT_SEG_MAX
   \<and> ce (change_to_ext ''user_1'' 1000
        \<lparr>c_line = 0, c_col_start = 8, c_col_end = 9, c_old_text = ''10'', c_new_text = ''42'',
         c_timestamp = ''12:00:00'', c_user_id = ''user_1'', c_type = ''replace''\<rparr>) = 8 + 2 - 1
   \<and> col_end (to_message ''user_1'' 1000
        \<lparr>c_line = 0, c_col_start = 8, c_col_end = 9, c_old_text = ''10'', c_new_text = ''42'',
         c_timestamp = ''12:00:00'', c_user_id = ''user_1'', c_type = ''replace''\<rparr>) = 8 + 2 - 1
   \<and> m_old_text (to_message ''user_1'' 1000
        \<lparr>c_line = 0, c_col_start = 8, c_col_end = 9, c_old_text = ''10'', c_new_text = ''42'',
         c_timestamp = ''12:00:00'', c_user_id = ''user_1'', c_type = ''replace''\<rparr>) = ''10''"
proof -
  let ?c = "\<lparr>c_line = 0, c_col_start = 8, c_col_end = 9, c_old_text = ''10'', c_new_text = ''42'',
     c_timestamp = ''12:00:00'', c_user_id = ''user_1'', c_type = ''replace''\<rparr>"
  have m: "?c \<in> set (detect_changes ''12:00:00'' ''user_1''
           [''int x = 10;'', ''int y = 20;'', ''int z = 30;'']
           [''int x = 42;'', ''int y = 20;'', ''int z = 30;''])"
    by (simp add: detect_replace_example)
  have n: "NUL \<notin> set ''10''" "length ''10'' < TEXT_SEG_MAX"
    by (simp_all add: NUL_def TEXT_SEG_MAX_def)
  have t: "m_old_text (to_message ''user_1'' 1000 ?c) = ''10''"
    using n by (simp add: to_message_def snprintf_def c_str_id TEXT_SEG_MAX_def)
  from col_end_invariant[OF m, of 1000] n t m show ?thesis
    by (simp add: Let_def change_to_ext_def to_message_def)
qed

lemma detect_insert_example:
  "detect_changes ''12:00:00'' ''user_1'' [''ab''] [''axb''] =
      [\<lparr>c_line = 0, c_col_start = 1, c_col_end = 1, c_old_text = [], c_new_text = ''x'',
        c_timestamp = ''12:00:00'', c_user_id = ''user_1'', c_type = ''insert''\<rparr>]"
  by code_simp

text \<open>
  Claim C8 as stated fails: inserting \<open>x\<close> into \<open>ab\<close> at column 1 is synthesized with
  \<open>col_end = 1 = col_start\<close>, not \<open>col_start - 1\<close>.
\<close>

theorem col_end_counterexample:
  "\<not> (\<forall>t u prev_lines new_lines. \<forall>c \<in> set (detect_changes t u prev_lines new_lines).
         c_col_end c = c_col_start c + int (length (c_old_text c)) - 1)"
proof
  assume a: "\<forall>t u prev_lines new_lines. \<forall>c \<in> set (detect_changes t u prev_lines new_lines).
         c_col_end c = c_col_start c + int (length (c_old_text c)) - 1"
  from a[rule_format, of _ "''12:00:00''" "''user_1''" "[''ab'']" "[''axb'']"]
  show False by (simp add: detect_insert_example)
qed

section \<open>Merge engine: properties\<close>


lemma overlaps_same_line: "overlaps a b \<Longrightarrow> line a = line b"
  by (simp add: overlaps_def split: if_splits)

lemma wrap_int32_id: "- 2147483648 \<le> x \<Longrightarrow> x \<le> 2147483647 \<Longrightarrow> wrap_int32 x = x"
  by (simp add: wrap_int32_def)

text \<open>
  Claim C10. \<^verbatim>\<open>overlaps\<close> is symmetric: the conflict test does not depend on the order
  in which two operations are compared.
\<close>

theorem overlaps_symmetric: "overlaps a b = overlaps b a"
  by (auto simp: overlaps_def Let_def)

theorem overlaps_symmetric_witness:
  "overlaps
     \<lparr>ts = 1, uid = ''user_1'', line = 0, cs = 8, ce = 9, op = Replace,
      old_text = ''10'', new_text = ''11''\<rparr>
     \<lparr>ts = 2, uid = ''user_2'', line = 0, cs = 9, ce = 9, op = Replace,
      old_text = ''0'', new_text = ''5''\<rparr>
   \<and> overlaps
     \<lparr>ts = 2, uid = ''user_2'', line = 0, cs = 9, ce = 9, op = Replace,
      old_text = ''0'', new_text = ''5''\<rparr>
     \<lparr>ts = 1, uid = ''user_1'', line = 0, cs = 8, ce = 9, op = Replace,
      old_text = ''10'', new_text = ''11''\<rparr>"
proof -
  have "overlaps
     \<lparr>ts = 1, uid = ''user_1'', line = 0, cs = 8, ce = 9, op = Replace,
      old_text = ''10'', new_text = ''11''\<rparr>
     \<lparr>ts = 2, uid = ''user_2'', line = 0, cs = 9, ce = 9, op = Replace,
      old_text = ''0'', new_text = ''5''\<rparr>"
    by (simp add: overlaps_def wrap_int32_def)
  then show ?thesis
    using overlaps_symmetric[of
        "\<lparr>ts = 1, uid = ''user_1'', line = 0, cs = 8, ce = 9, op = Replace,
          old_text = ''10'', new_text = ''11''\<rparr>"
        "\<lparr>ts = 2, uid = ''user_2'', line = 0, cs = 9, ce = 9, op = Replace,
          old_text = ''0'', new_text = ''5''\<rparr>"]
    by simp
qed






















lemma apply_update_to_line_total: "\<exists>s. apply_update_to_line cur u = Inr s"
  by (auto simp: apply_update_to_line_def substr_def Let_def)

lemma apply_updates_total: "\<exists>s. apply_updates cur offset us = Inr s"
  by (induction us arbitrary: cur offset) (auto simp: substr_def Let_def)

lemma apply_lines_total: "\<exists>d. apply_lines lines kvs = Inr d"
proof (induction kvs arbitrary: lines)
  case Nil
  then show ?case by simp
next
  case (Cons kv kvs)
  obtain k vec where kv: "kv = (k, vec)" by (cases kv)
  obtain s where "apply_updates (extend_lines lines (unat k) ! unat k) 0 (sort_updates vec) = Inr s"
    using apply_updates_total by blast
  with Cons kv show ?case by (simp add: Let_def)
qed

lemma do_merge_apply_total: "\<exists>res. do_merge_apply lines l r s = Inr res"
  using apply_lines_total[of lines "foldl push_update [] (survivors (coalesce (l @ r)))"]
  by (auto simp: do_merge_apply_def Let_def)

lemma do_merge_apply_split:
  assumes "l1 @ r1 = l2 @ r2"
  shows "map_sum id (\<lambda>res. (fst res, fst (snd res))) (do_merge_apply lines l1 r1 s1) =
         map_sum id (\<lambda>res. (fst res, fst (snd res))) (do_merge_apply lines l2 r2 s2)"
proof (cases "l1 @ r1 = []")
  case True
  with assms show ?thesis by (simp add: do_merge_apply_def)
next
  case False
  with assms have c: "(l1 = [] \<and> r1 = []) = False" "(l2 = [] \<and> r2 = []) = False" by auto
  show ?thesis
    unfolding do_merge_apply_def c if_False assms ..
qed

text \<open>
  Claim C1 fails on the code. Three peers replace overlapping spans of the line
  \<open>abcdef\<close>: the operation of \<open>user_1\<close> overlaps that of \<open>user_2\<close>, which overlaps that
  of \<open>user_3\<close>, while the first and the third are disjoint. Peer \<open>user_1\<close> merges its own
  operation with the other two as received; peer \<open>user_2\<close> merges its own with the other
  two received in the order \<open>user_3\<close>, \<open>user_1\<close>. The multiset of operations and the
  baseline are the same, and the two documents differ.
\<close>

theorem merge_order_dependent:
  "mset ([\<lparr>ts = 3, uid = ''user_1'', line = 0, cs = 0, ce = 1, op = Replace,
            old_text = ''ab'', new_text = ''X''\<rparr>]
         @ [\<lparr>ts = 2, uid = ''user_2'', line = 0, cs = 1, ce = 3, op = Replace,
              old_text = ''bcd'', new_text = ''Y''\<rparr>,
            \<lparr>ts = 1, uid = ''user_3'', line = 0, cs = 3, ce = 4, op = Replace,
              old_text = ''de'', new_text = ''Z''\<rparr>])
   = mset ([\<lparr>ts = 2, uid = ''user_2'', line = 0, cs = 1, ce = 3, op = Replace,
              old_text = ''bcd'', new_text = ''Y''\<rparr>]
         @ [\<lparr>ts = 1, uid = ''user_3'', line = 0, cs = 3, ce = 4, op = Replace,
              old_text = ''de'', new_text = ''Z''\<rparr>,
            \<lparr>ts = 3, uid = ''user_1'', line = 0, cs = 0, ce = 1, op = Replace,
              old_text = ''ab'', new_text = ''X''\<rparr>])
   \<and> do_merge_apply [''abcdef'']
        [\<lparr>ts = 3, uid = ''user_1'', line = 0, cs = 0, ce = 1, op = Replace,
           old_text = ''ab'', new_text = ''X''\<rparr>]
        [\<lparr>ts = 2, uid = ''user_2'', line = 0, cs = 1, ce = 3, op = Replace,
           old_text = ''bcd'', new_text = ''Y''\<rparr>,
         \<lparr>ts = 1, uid = ''user_3'', line = 0, cs = 3, ce = 4, op = Replace,
           old_text = ''de'', new_text = ''Z''\<rparr>]
        ''user_1'' = Inr (True, [''XcZf''], [], [])
   \<and> do_merge_apply [''abcdef'']
        [\<lparr>ts = 2, uid = ''user_2'', line = 0, cs = 1, ce = 3, op = Replace,
           old_text = ''bcd'', new_text = ''Y''\<rparr>]
        [\<lparr>ts = 1, uid = ''user_3'', line = 0, cs = 3, ce = 4, op = Replace,
           old_text = ''de'', new_text = ''Z''\<rparr>,
         \<lparr>ts = 3, uid = ''user_1'', line = 0, cs = 0, ce = 1, op = Replace,
           old_text = ''ab'', new_text = ''X''\<rparr>]
        ''user_2'' = Inr (True, [''Xcdef''], [], [])
   \<and> trim_trailing [''XcZf''] \<noteq> trim_trailing [''Xcdef'']"
proof -
  have 1: "do_merge_apply [''abcdef'']
        [\<lparr>ts = 3, uid = ''user_1'', line = 0, cs = 0, ce = 1, op = Replace,
           old_text = ''ab'', new_text = ''X''\<rparr>]
        [\<lparr>ts = 2, uid = ''user_2'', line = 0, cs = 1, ce = 3, op = Replace,
           old_text = ''bcd'', new_text = ''Y''\<rparr>,
         \<lparr>ts = 1, uid = ''user_3'', line = 0, cs = 3, ce = 4, op = Replace,
           old_text = ''de'', new_text = ''Z''\<rparr>]
        ''user_1'' = Inr (True, [''XcZf''], [], [])"
    by code_simp
  have 2: "do_merge_apply [''abcdef'']
        [\<lparr>ts = 2, uid = ''user_2'', line = 0, cs = 1, ce = 3, op = Replace,
           old_text = ''bcd'', new_text = ''Y''\<rparr>]
        [\<lparr>ts = 1, uid = ''user_3'', line = 0, cs = 3, ce = 4, op = Replace,
           old_text = ''de'', new_text = ''Z''\<rparr>,
         \<lparr>ts = 3, uid = ''user_1'', line = 0, cs = 0, ce = 1, op = Replace,
           old_text = ''ab'', new_text = ''X''\<rparr>]
        ''user_2'' = Inr (True, [''Xcdef''], [], [])"
    by code_simp
  have 3: "trim_trailing [''XcZf''] \<noteq> trim_trailing [''Xcdef'']"
    by (simp add: trim_trailing.simps)
  show ?thesis
    unfolding 1 2 using 3 by (simp add: add_mset_commute)
qed

text \<open>
  Claim C3 fails on the code. The line reads \<open>int x = 42;\<close> and an operation arrives that
  replaced \<open>10\<close> by \<open>11\<close> at columns 8 to 9: its \<open>old_text\<close> does not match the segment
  \<open>42\<close> now at column 8. Neither the single-operation applier nor the merge compares
  \<open>old_text\<close> with the line: both return without an error, and both overwrite the segment.
\<close>

theorem stale_update_applied:
  "take (length ''10'') (drop 8 ''int x = 42;'') \<noteq> ''10''
   \<and> apply_update_to_line ''int x = 42;''
        \<lparr>ts = 1000, uid = ''user_2'', line = 0, cs = 8, ce = 9, op = Replace,
         old_text = ''10'', new_text = ''11''\<rparr> = Inr ''int x = 11;''
   \<and> do_merge_apply [''int x = 42;''] []
        [\<lparr>ts = 1000, uid = ''user_2'', line = 0, cs = 8, ce = 9, op = Replace,
          old_text = ''10'', new_text = ''11''\<rparr>] ''user_1'' =
        Inr (True, [''int x = 11;''], [], [])"
proof -
  have 1: "take (length ''10'') (drop 8 ''int x = 42;'') \<noteq> ''10''"
    by simp
  have 2: "apply_update_to_line ''int x = 42;''
        \<lparr>ts = 1000, uid = ''user_2'', line = 0, cs = 8, ce = 9, op = Replace,
         old_text = ''10'', new_text = ''11''\<rparr> = Inr ''int x = 11;''"
    by code_simp
  have 3: "do_merge_apply [''int x = 42;''] []
        [\<lparr>ts = 1000, uid = ''user_2'', line = 0, cs = 8, ce = 9, op = Replace,
          old_text = ''10'', new_text = ''11''\<rparr>] ''user_1'' =
        Inr (True, [''int x = 11;''], [], [])"
    by code_simp
  from 1 2 3 show ?thesis by blast
qed

lemma coalesce_inner_chain:
  "continues z y \<Longrightarrow> is_chain (y # ys) \<Longrightarrow>
   coalesce_inner z (y # ys) =
     (z\<lparr>new_text := new_text (last (y # ys)), ts := ts (last (y # ys))\<rparr>, map tombstone (y # ys))"
proof (induction ys arbitrary: z y)
  case Nil
  then show ?case by (simp add: tombstone_def)
next
  case (Cons y2 ys)
  from Cons.prems have c: "continues (z\<lparr>new_text := new_text y, ts := ts y\<rparr>) y2"
    and ch: "is_chain (y2 # ys)"
    by (simp_all add: continues_def)
  from Cons.IH[OF c ch] Cons.prems(1) show ?case
    by (simp add: tombstone_def)
qed

lemma coalesce_inner_fst:
  "old_text (fst (coalesce_inner x ys)) = old_text x \<and> line (fst (coalesce_inner x ys)) = line x
   \<and> cs (fst (coalesce_inner x ys)) = cs x \<and> ce (fst (coalesce_inner x ys)) = ce x
   \<and> uid (fst (coalesce_inner x ys)) = uid x"
  by (induction ys arbitrary: x) (simp_all add: case_prod_beta)

lemma coalesce_inner_tombs:
  "\<forall>y \<in> set ys. old_text y = MERGED \<Longrightarrow> \<forall>y \<in> set (snd (coalesce_inner x ys)). old_text y = MERGED"
  by (induction ys arbitrary: x) (simp_all add: case_prod_beta)

lemma coalesce_tombs:
  "\<forall>y \<in> set ys. old_text y = MERGED \<Longrightarrow> \<forall>y \<in> set (coalesce ys). old_text y = MERGED"
proof (induction ys rule: coalesce.induct)
  case 1
  then show ?case by simp
next
  case (2 x xs)
  obtain x' xs' where ci: "coalesce_inner x xs = (x', xs')" by (cases "coalesce_inner x xs")
  from "2.prems" have "\<forall>y \<in> set xs. old_text y = MERGED" by simp
  from coalesce_inner_tombs[OF this, of x] ci have t: "\<forall>y \<in> set xs'. old_text y = MERGED" by simp
  from coalesce_inner_fst[of x xs] ci "2.prems" have "old_text x' = MERGED" by simp
  with "2.IH"[OF ci[symmetric] refl t] ci show ?case by simp
qed

lemma coalesce_inner_filter_same:
  "line x = L \<Longrightarrow>
   coalesce_inner x (filter (\<lambda>u. line u = L) ys) =
     (fst (coalesce_inner x ys), filter (\<lambda>u. line u = L) (snd (coalesce_inner x ys)))"
proof (induction ys arbitrary: x)
  case Nil
  then show ?case by simp
next
  case (Cons y ys)
  show ?case
  proof (cases "line y = L")
    case False
    with Cons.prems have "\<not> continues x y" by (simp add: continues_def)
    with False Cons.IH[OF Cons.prems] show ?thesis by (simp add: case_prod_beta)
  next
    case True
    show ?thesis
    proof (cases "continues x y")
      case c: True
      have "line (x\<lparr>new_text := new_text y, ts := ts y\<rparr>) = L" using Cons.prems by simp
      from Cons.IH[OF this] True c show ?thesis by (simp add: case_prod_beta)
    next
      case c: False
      with True Cons.IH[OF Cons.prems] show ?thesis by (simp add: case_prod_beta)
    qed
  qed
qed

lemma coalesce_inner_filter_other:
  "line x \<noteq> L \<Longrightarrow>
   filter (\<lambda>u. line u = L) (snd (coalesce_inner x ys)) = filter (\<lambda>u. line u = L) ys"
proof (induction ys arbitrary: x)
  case Nil
  then show ?case by simp
next
  case (Cons y ys)
  show ?case
  proof (cases "continues x y")
    case True
    then have "line y \<noteq> L" using Cons.prems by (simp add: continues_def)
    moreover have "line (x\<lparr>new_text := new_text y, ts := ts y\<rparr>) \<noteq> L" using Cons.prems by simp
    ultimately show ?thesis using True Cons.IH by (simp add: case_prod_beta)
  next
    case False
    then show ?thesis using Cons.IH[OF Cons.prems] by (simp add: case_prod_beta)
  qed
qed

lemma coalesce_filter:
  "filter (\<lambda>u. line u = L) (coalesce xs) = coalesce (filter (\<lambda>u. line u = L) xs)"
proof (induction xs rule: coalesce.induct)
  case 1
  then show ?case by simp
next
  case (2 x xs)
  obtain x' xs' where ci: "coalesce_inner x xs = (x', xs')" by (cases "coalesce_inner x xs")
  note IH = "2.IH"[OF ci[symmetric] refl]
  have lx: "line x' = line x" using coalesce_inner_fst[of x xs] ci by simp
  show ?case
  proof (cases "line x = L")
    case True
    from coalesce_inner_filter_same[OF True, of xs] ci
    have "coalesce_inner x (filter (\<lambda>u. line u = L) xs) = (x', filter (\<lambda>u. line u = L) xs')"
      by simp
    with True lx IH ci show ?thesis by simp
  next
    case False
    from coalesce_inner_filter_other[OF False, of xs] ci
    have "filter (\<lambda>u. line u = L) xs' = filter (\<lambda>u. line u = L) xs" by simp
    with False lx IH ci show ?thesis by simp
  qed
qed

lemma effective_simps [simp]:
  "effective [] = []"
  "effective ((y, a) # ys) = (y, a \<and> old_text y \<noteq> MERGED) # effective ys"
  by (simp_all add: effective_def)

lemma effective_idem [simp]: "effective (effective ys) = effective ys"
  by (induction ys) auto

lemma length_effective [simp]: "length (effective ys) = length ys"
  by (simp add: effective_def)

lemma effective_filter:
  "effective (filter (\<lambda>p. line (fst p) = L) ys) = filter (\<lambda>p. line (fst p) = L) (effective ys)"
  by (induction ys) auto

lemma resolve_inner_effective:
  "fst (resolve_inner x (effective ys)) = fst (resolve_inner x ys) \<and>
   effective (snd (resolve_inner x (effective ys))) = effective (snd (resolve_inner x ys))"
  by (induction x ys rule: resolve_inner.induct) (auto simp: case_prod_beta)

lemma resolve_effective: "resolve (effective ys) = resolve ys"
proof (induction "length ys" arbitrary: ys rule: less_induct)
  case less
  show ?case
  proof (cases ys)
    case Nil
    then show ?thesis by simp
  next
    case (Cons p xs)
    obtain x a where p: "p = (x, a)" by (cases p)
    have xs: "resolve (effective xs) = resolve xs"
      using less[of xs] Cons by simp
    show ?thesis
    proof (cases "a \<and> old_text x \<noteq> MERGED")
      case False
      then show ?thesis using Cons p xs by auto
    next
      case True
      obtain b zs where r1: "resolve_inner x (effective xs) = (b, zs)"
        by (cases "resolve_inner x (effective xs)")
      obtain b' xs' where r2: "resolve_inner x xs = (b', xs')"
        by (cases "resolve_inner x xs")
      from resolve_inner_effective[of x xs] r1 r2
      have b: "b = b'" and e: "effective zs = effective xs'" by simp_all
      have lz: "length zs < length ys"
        using length_resolve_inner[of x "effective xs"] r1 Cons by simp
      have lx: "length xs' < length ys"
        using length_resolve_inner[of x xs] r2 Cons by simp
      have "resolve zs = resolve (effective zs)" using less[OF lz] by simp
      also have "\<dots> = resolve xs'" using less[OF lx] e by simp
      finally show ?thesis using True Cons p r1 r2 b by simp
    qed
  qed
qed

lemma resolve_inner_filter_same:
  "line x = L \<Longrightarrow>
   resolve_inner x (filter (\<lambda>p. line (fst p) = L) ys) =
     (fst (resolve_inner x ys), filter (\<lambda>p. line (fst p) = L) (snd (resolve_inner x ys)))"
  by (induction x ys rule: resolve_inner.induct)
    (auto simp: case_prod_beta dest: overlaps_same_line)

lemma resolve_inner_filter_other:
  "line x \<noteq> L \<Longrightarrow>
   effective (filter (\<lambda>p. line (fst p) = L) (snd (resolve_inner x ys))) =
   effective (filter (\<lambda>p. line (fst p) = L) ys)"
  by (induction x ys rule: resolve_inner.induct)
    (auto simp: case_prod_beta dest: overlaps_same_line)

lemma resolve_filter:
  "filter (\<lambda>p. line (fst p) = L) (resolve ys) = resolve (filter (\<lambda>p. line (fst p) = L) ys)"
proof (induction ys rule: resolve.induct)
  case 1
  then show ?case by simp
next
  case (2 x a xs)
  show ?case
  proof (cases "a \<and> old_text x \<noteq> MERGED")
    case False
    then show ?thesis using "2.IH"(1,2) by auto
  next
    case True
    obtain b xs' where r: "resolve_inner x xs = (b, xs')" by (cases "resolve_inner x xs")
    from True have IH: "filter (\<lambda>p. line (fst p) = L) (resolve xs') =
        resolve (filter (\<lambda>p. line (fst p) = L) xs')"
      using "2.IH"(3)[OF _ _ r[symmetric] refl] by simp
    show ?thesis
    proof (cases "line x = L")
      case same: True
      from resolve_inner_filter_same[OF same, of xs] r
      have "resolve_inner x (filter (\<lambda>p. line (fst p) = L) xs) =
          (b, filter (\<lambda>p. line (fst p) = L) xs')" by simp
      then show ?thesis using True same r IH by simp
    next
      case other: False
      from resolve_inner_filter_other[OF other, of xs] r
      have "effective (filter (\<lambda>p. line (fst p) = L) xs') =
          effective (filter (\<lambda>p. line (fst p) = L) xs)" by simp
      then have "resolve (filter (\<lambda>p. line (fst p) = L) xs') =
          resolve (filter (\<lambda>p. line (fst p) = L) xs)"
        by (metis resolve_effective)
      then show ?thesis using True other r IH by simp
    qed
  qed
qed

lemma survivors_filter:
  "filter (\<lambda>u. line u = L) (survivors xs) = survivors (filter (\<lambda>u. line u = L) xs)"
proof -
  have a: "filter (\<lambda>u. line u = L) (map fst (filter snd ps)) =
        map fst (filter snd (filter (\<lambda>p. line (fst p) = L) ps))" for ps :: "(UpdateExt \<times> bool) list"
    by (induction ps) (simp_all del: filter_filter)
  have b: "filter (\<lambda>p. line (fst p) = L) (map (\<lambda>u. (u, True)) xs) =
        map (\<lambda>u. (u, True)) (filter (\<lambda>u. line u = L) xs)"
    by (induction xs) simp_all
  have "filter (\<lambda>u. line u = L) (survivors xs) =
      map fst (filter snd (filter (\<lambda>p. line (fst p) = L) (resolve (map (\<lambda>u. (u, True)) xs))))"
    unfolding survivors_def by (rule a)
  also have "filter (\<lambda>p. line (fst p) = L) (resolve (map (\<lambda>u. (u, True)) xs)) =
      resolve (filter (\<lambda>p. line (fst p) = L) (map (\<lambda>u. (u, True)) xs))"
    by (rule resolve_filter)
  also have "filter (\<lambda>p. line (fst p) = L) (map (\<lambda>u. (u, True)) xs) =
      map (\<lambda>u. (u, True)) (filter (\<lambda>u. line u = L) xs)"
    by (rule b)
  finally show ?thesis unfolding survivors_def .
qed

lemma resolve_all_dead:
  "\<forall>p \<in> set ys. \<not> snd p \<or> old_text (fst p) = MERGED \<Longrightarrow> filter snd (resolve ys) = []"
  by (induction ys) auto

lemma resolve_inner_tombs:
  "\<forall>p \<in> set ys. \<not> snd p \<or> old_text (fst p) = MERGED \<Longrightarrow>
   fst (resolve_inner x ys) \<and> filter snd (snd (resolve_inner x ys)) = []"
  by (induction x ys rule: resolve_inner.induct) (auto simp: case_prod_beta)

lemma survivors_head_only:
  assumes "\<forall>y \<in> set ys. old_text y = MERGED"
  shows "survivors (x # ys) = (if old_text x = MERGED then [] else [x])"
proof -
  let ?ps = "map (\<lambda>u. (u, True)) ys"
  have d: "\<forall>p \<in> set ?ps. \<not> snd p \<or> old_text (fst p) = MERGED"
    using assms by auto
  show ?thesis
  proof (cases "old_text x = MERGED")
    case True
    then show ?thesis using resolve_all_dead[OF d] by (simp add: survivors_def)
  next
    case False
    obtain b zs where r: "resolve_inner x ?ps = (b, zs)" by (cases "resolve_inner x ?ps")
    from resolve_inner_tombs[OF d, of x] r have b: "b" and z: "filter snd zs = []" by simp_all
    from z have "\<forall>p \<in> set zs. \<not> snd p \<or> old_text (fst p) = MERGED"
      by (auto simp: filter_empty_conv)
    from resolve_all_dead[OF this] show ?thesis
      using False r b by (simp add: survivors_def)
  qed
qed

lemma extend_lines_eq: "extend_lines lines n = lines @ replicate (Suc n - length lines) []"
proof (induction lines n rule: extend_lines.induct)
  case (1 lines line_num)
  show ?case
  proof (cases "length lines \<le> line_num")
    case True
    then have "Suc line_num - length lines = Suc (line_num - length lines)" by simp
    with True "1.IH" show ?thesis
      by (subst extend_lines.simps) (simp add: replicate_app_Cons_same)
  next
    case False
    then show ?thesis by (subst extend_lines.simps) simp
  qed
qed

lemma length_extend_lines: "n < length (extend_lines lines n)"
  by (simp add: extend_lines_eq)

lemma line_at_extend_lines: "line_at (extend_lines lines n) k = line_at lines k"
  by (auto simp: extend_lines_eq line_at_def nth_append)

lemma line_at_update:
  "line_at (xs[i := v]) k = (if k = i \<and> i < length xs then v else line_at xs k)"
  by (auto simp: line_at_def)

lemma sort_updates_single [simp]: "sort_updates [u] = [u]"
  by simp

lemma push_update_sorted:
  "sorted_wrt (<) (map fst m) \<Longrightarrow> sorted_wrt (<) (map fst (push_update m u))
   \<and> set (map fst (push_update m u)) = insert (line u) (set (map fst m))"
proof (induction m)
  case Nil
  then show ?case by simp
next
  case (Cons kv m)
  obtain k vec where kv: "kv = (k, vec)" by (cases kv)
  from Cons.prems have s: "sorted_wrt (<) (map fst m)" and a: "\<forall>x \<in> set (map fst m). k < x"
    by (simp_all add: kv)
  from Cons.IH[OF s] a s show ?case
    by (auto simp: kv)
qed

lemma push_update_map_of:
  "sorted_wrt (<) (map fst m) \<Longrightarrow>
   map_of (push_update m u) =
     (map_of m)(line u \<mapsto> (case map_of m (line u) of None \<Rightarrow> [u] | Some vec \<Rightarrow> vec @ [u]))"
proof (induction m)
  case Nil
  then show ?case by simp
next
  case (Cons kv m)
  obtain k vec where kv: "kv = (k, vec)" by (cases kv)
  from Cons.prems have s: "sorted_wrt (<) (map fst m)" and a: "\<forall>x \<in> set (map fst m). k < x"
    by (simp_all add: kv)
  show ?case
  proof (cases "line u = k")
    case True
    then show ?thesis by (auto simp: kv)
  next
    case ne: False
    show ?thesis
    proof (cases "line u < k")
      case True
      with a have "line u \<notin> set (map fst m)" by auto
      then have "map_of m (line u) = None" by (simp add: map_of_eq_None_iff)
      with True ne show ?thesis by (auto simp: kv)
    next
      case False
      with ne Cons.IH[OF s] show ?thesis by (auto simp: kv)
    qed
  qed
qed

lemma grouping:
  "sorted_wrt (<) (map fst (foldl push_update [] ws)) \<and>
   map_of (foldl push_update [] ws) k =
     (if filter (\<lambda>u. line u = k) ws = [] then None else Some (filter (\<lambda>u. line u = k) ws))"
proof (induction ws rule: rev_induct)
  case Nil
  then show ?case by simp
next
  case (snoc u ws)
  then have s: "sorted_wrt (<) (map fst (foldl push_update [] ws))" by simp
  from push_update_sorted[OF s, of u] push_update_map_of[OF s, of u] snoc
  show ?case by auto
qed

lemma unat_line_eq: "(unat (a :: 32 word) = unat b) = (a = b)"
  by (simp add: word_unat_eq_iff)

lemma apply_lines_line_at:
  assumes "distinct (map fst kvs)" and "apply_lines lines kvs = Inr doc"
  shows "case map_of kvs L of
           None \<Rightarrow> line_at doc (unat L) = line_at lines (unat L)
         | Some vec \<Rightarrow>
             apply_updates (line_at lines (unat L)) 0 (sort_updates vec) = Inr (line_at doc (unat L))"
  using assms
proof (induction kvs arbitrary: lines)
  case Nil
  then show ?case by simp
next
  case (Cons kv kvs)
  obtain k vec where kv: "kv = (k, vec)" by (cases kv)
  define lines1 where "lines1 = extend_lines lines (unat k)"
  obtain cur where cur: "apply_updates (lines1 ! unat k) 0 (sort_updates vec) = Inr cur"
    using apply_updates_total by blast
  have len: "unat k < length lines1"
    unfolding lines1_def by (rule length_extend_lines)
  then have at: "lines1 ! unat k = line_at lines (unat k)"
    using line_at_extend_lines[of lines "unat k" "unat k"] by (simp add: lines1_def line_at_def)
  from Cons.prems(2) cur have rest: "apply_lines (lines1[unat k := cur]) kvs = Inr doc"
    by (simp add: kv lines1_def Let_def)
  from Cons.prems(1) have d: "distinct (map fst kvs)" and nk: "k \<notin> set (map fst kvs)"
    by (simp_all add: kv)
  note IH = Cons.IH[OF d rest]
  show ?case
  proof (cases "k = L")
    case True
    from nk True have "map_of kvs L = None" by (simp add: map_of_eq_None_iff)
    with IH have "line_at doc (unat L) = line_at (lines1[unat k := cur]) (unat L)" by simp
    also have "\<dots> = cur" using len True by (simp add: line_at_update)
    finally show ?thesis using cur at True by (simp add: kv)
  next
    case False
    then have ne: "unat L \<noteq> unat k" by (simp add: unat_line_eq)
    have "line_at (lines1[unat k := cur]) (unat L) = line_at lines (unat L)"
      using ne by (simp add: line_at_update lines1_def line_at_extend_lines)
    with IH False show ?thesis by (auto simp: kv split: option.splits)
  qed
qed

lemma coalesce_chain:
  assumes "is_chain (x # ys)"
  shows "\<exists>zs. coalesce (x # ys) =
           x\<lparr>new_text := new_text (last (x # ys)), ts := ts (last (x # ys))\<rparr> # zs
         \<and> (\<forall>z \<in> set zs. old_text z = MERGED)"
proof (cases ys)
  case Nil
  then show ?thesis by simp
next
  case (Cons y ys')
  with assms have c: "continues x y" and ch: "is_chain (y # ys')" by simp_all
  from coalesce_inner_chain[OF c ch]
  have ci: "coalesce_inner x ys =
      (x\<lparr>new_text := new_text (last (x # ys)), ts := ts (last (x # ys))\<rparr>, map tombstone ys)"
    by (simp add: Cons)
  have "\<forall>z \<in> set (map tombstone ys). old_text z = MERGED"
    by (simp add: tombstone_def)
  from coalesce_tombs[OF this] ci show ?thesis by simp
qed

lemma chain_merged_line:
  assumes "is_chain (x # ys)"
    and "filter (\<lambda>u. line u = line x) (l @ r) = x # ys"
  shows "\<exists>changed doc.
           do_merge_apply lines l r s = Inr (changed, doc, [], [])
         \<and> (if old_text x = MERGED then line_at doc (unat (line x)) = line_at lines (unat (line x))
             else apply_updates (line_at lines (unat (line x))) 0
                    [x\<lparr>new_text := new_text (last (x # ys)), ts := ts (last (x # ys))\<rparr>] =
                  Inr (line_at doc (unat (line x))))"
proof -
  let ?x' = "x\<lparr>new_text := new_text (last (x # ys)), ts := ts (last (x # ys))\<rparr>"
  let ?W = "survivors (coalesce (l @ r))"
  from assms(2) have ne: "(l = [] \<and> r = []) = False" by auto
  obtain doc where doc: "apply_lines lines (foldl push_update [] ?W) = Inr doc"
    using apply_lines_total by blast
  have m: "do_merge_apply lines l r s = Inr (?W \<noteq> [], doc, [], [])"
    unfolding do_merge_apply_def by (simp only: ne if_False Let_def doc sum.case)
  from coalesce_chain[OF assms(1)] obtain zs where
    co: "coalesce (x # ys) = ?x' # zs" and tz: "\<forall>z \<in> set zs. old_text z = MERGED" by blast
  have "filter (\<lambda>u. line u = line x) ?W = survivors (coalesce (filter (\<lambda>u. line u = line x) (l @ r)))"
    by (simp only: survivors_filter coalesce_filter)
  also have "\<dots> = survivors (?x' # zs)" by (simp only: assms(2) co)
  also have "\<dots> = (if old_text x = MERGED then [] else [?x'])"
    using survivors_head_only[OF tz, of ?x'] by simp
  finally have W: "filter (\<lambda>u. line u = line x) ?W = (if old_text x = MERGED then [] else [?x'])" .
  from grouping[of ?W "line x"] have
    srt: "sorted_wrt (<) (map fst (foldl push_update [] ?W))" and
    mo: "map_of (foldl push_update [] ?W) (line x) =
      (if filter (\<lambda>u. line u = line x) ?W = [] then None
       else Some (filter (\<lambda>u. line u = line x) ?W))" by simp_all
  from srt have dist: "distinct (map fst (foldl push_update [] ?W))"
    by (simp add: strict_sorted_iff)
  from apply_lines_line_at[OF dist doc, of "line x"] mo W
  have "if old_text x = MERGED then line_at doc (unat (line x)) = line_at lines (unat (line x))
        else apply_updates (line_at lines (unat (line x))) 0 [?x'] = Inr (line_at doc (unat (line x)))"
    by (simp split: if_splits)
  with m show ?thesis by blast
qed

text \<open>
  Coalescing of a chain. Let the operations of the merge input on one line be exactly a
  chain \<open>o1, ..., ok\<close>, in this order: same line, same author, same \<open>col_start\<close>, and the
  \<open>new_text\<close> of each equal to the \<open>old_text\<close> of the next; operations on other lines may
  stand anywhere in the two buffers. Then the line after the merge is the line after
  merging, from the same baseline, the single operation \<open>o1\<close> with its \<open>new_text\<close> replaced
  by that of \<open>ok\<close>. Unless \<open>o1\<close> carries the tombstone marker as its \<open>old_text\<close>, this is
  the result of the merge's application step for that single operation on the baseline
  line. A line the document does not have reads as the empty line.
\<close>

lemma apply_updates_single_cong:
  assumes "cs u = cs v" and "ce u = ce v" and "new_text u = new_text v"
  shows "apply_updates cur offset [u] = apply_updates cur offset [v]"
  unfolding apply_updates.simps Let_def assms ..

lemma single_merged_line:
  "\<exists>changed doc.
     do_merge_apply lines [u] [] s = Inr (changed, doc, [], [])
   \<and> (if old_text u = MERGED then line_at doc (unat (line u)) = line_at lines (unat (line u))
       else apply_updates (line_at lines (unat (line u))) 0 [u] =
            Inr (line_at doc (unat (line u))))"
proof -
  have ch: "is_chain (u # [])" by simp
  have fl: "filter (\<lambda>v. line v = line u) ([u] @ []) = u # []" by simp
  have c: "apply_updates cur 0 [u\<lparr>new_text := new_text (last (u # [])), ts := ts (last (u # []))\<rparr>] =
      apply_updates cur 0 [u]" for cur
    by (rule apply_updates_single_cong) simp_all
  from chain_merged_line[OF ch fl, of lines s] show ?thesis
    unfolding c .
qed

lemma chain_coalescing:
  assumes "is_chain (o1 # os)"
    and "filter (\<lambda>u. line u = line o1) (local_unmerged @ recv_unmerged) = o1 # os"
  shows "merged_line (do_merge_apply lines local_unmerged recv_unmerged self_uid) (line o1) =
         merged_line (do_merge_apply lines [o1\<lparr>new_text := new_text (last (o1 # os))\<rparr>] [] self_uid)
           (line o1)
       \<and> (old_text o1 \<noteq> MERGED \<longrightarrow>
            merged_line (do_merge_apply lines local_unmerged recv_unmerged self_uid) (line o1) =
            apply_updates (line_at lines (unat (line o1))) 0
              [o1\<lparr>new_text := new_text (last (o1 # os))\<rparr>])"
proof -
  define single where "single = o1\<lparr>new_text := new_text (last (o1 # os))\<rparr>"
  define cur where "cur = line_at lines (unat (line o1))"
  have sl: "line single = line o1" and so: "old_text single = old_text o1"
    by (simp_all add: single_def)
  have same: "apply_updates cur 0
      [o1\<lparr>new_text := new_text (last (o1 # os)), ts := ts (last (o1 # os))\<rparr>] =
      apply_updates cur 0 [single]"
    by (rule apply_updates_single_cong) (simp_all add: single_def)
  from chain_merged_line[OF assms, of lines self_uid] obtain changed doc where
    m: "do_merge_apply lines local_unmerged recv_unmerged self_uid = Inr (changed, doc, [], [])"
    and d: "if old_text o1 = MERGED then line_at doc (unat (line o1)) = cur
            else apply_updates cur 0 [single] = Inr (line_at doc (unat (line o1)))"
    unfolding same cur_def[symmetric] by blast
  from single_merged_line[of lines single self_uid] obtain changed' doc' where
    m': "do_merge_apply lines [single] [] self_uid = Inr (changed', doc', [], [])"
    and d': "if old_text o1 = MERGED then line_at doc' (unat (line o1)) = cur
             else apply_updates cur 0 [single] = Inr (line_at doc' (unat (line o1)))"
    unfolding sl so cur_def[symmetric] by blast
  from d d' have e: "line_at doc (unat (line o1)) = line_at doc' (unat (line o1))"
    by (cases "old_text o1 = MERGED") simp_all
  have 1: "merged_line (do_merge_apply lines local_unmerged recv_unmerged self_uid) (line o1) =
      Inr (line_at doc (unat (line o1)))"
    by (simp add: m merged_line_def)
  have 2: "merged_line (do_merge_apply lines [single] [] self_uid) (line o1) =
      Inr (line_at doc' (unat (line o1)))"
    by (simp add: m' merged_line_def)
  have 3: "old_text o1 \<noteq> MERGED \<longrightarrow> Inr (line_at doc (unat (line o1))) = apply_updates cur 0 [single]"
    using d by (cases "old_text o1 = MERGED") (simp_all del: apply_updates.simps)
  show ?thesis
    unfolding single_def[symmetric] cur_def[symmetric] 1 2 using e 3
    by (simp del: apply_updates.simps)
qed

lemma chain_example:
  "merged_line (do_merge_apply [''int x = 10;'', ''int y = 20;'']
        [\<lparr>ts = 5, uid = ''user_2'', line = 1, cs = 8, ce = 9, op = Replace,
          old_text = ''20'', new_text = ''21''\<rparr>]
        [\<lparr>ts = 1, uid = ''user_1'', line = 0, cs = 9, ce = 9, op = Replace,
          old_text = ''0'', new_text = ''1''\<rparr>,
         \<lparr>ts = 2, uid = ''user_1'', line = 0, cs = 9, ce = 9, op = Replace,
          old_text = ''1'', new_text = ''2''\<rparr>,
         \<lparr>ts = 3, uid = ''user_1'', line = 0, cs = 9, ce = 9, op = Replace,
          old_text = ''2'', new_text = ''3''\<rparr>] ''user_2'') 0 = Inr ''int x = 13;''"
  by code_simp

lemma chain_coalescing_instance:
  "is_chain
     [\<lparr>ts = 1, uid = ''user_1'', line = 0, cs = 9, ce = 9, op = Replace,
       old_text = ''0'', new_text = ''1''\<rparr>,
      \<lparr>ts = 2, uid = ''user_1'', line = 0, cs = 9, ce = 9, op = Replace,
       old_text = ''1'', new_text = ''2''\<rparr>,
      \<lparr>ts = 3, uid = ''user_1'', line = 0, cs = 9, ce = 9, op = Replace,
       old_text = ''2'', new_text = ''3''\<rparr>]
   \<and> ''0'' \<noteq> MERGED
   \<and> merged_line (do_merge_apply [''int x = 10;'', ''int y = 20;'']
        [\<lparr>ts = 5, uid = ''user_2'', line = 1, cs = 8, ce = 9, op = Replace,
          old_text = ''20'', new_text = ''21''\<rparr>]
        [\<lparr>ts = 1, uid = ''user_1'', line = 0, cs = 9, ce = 9, op = Replace,
          old_text = ''0'', new_text = ''1''\<rparr>,
         \<lparr>ts = 2, uid = ''user_1'', line = 0, cs = 9, ce = 9, op = Replace,
          old_text = ''1'', new_text = ''2''\<rparr>,
         \<lparr>ts = 3, uid = ''user_1'', line = 0, cs = 9, ce = 9, op = Replace,
          old_text = ''2'', new_text = ''3''\<rparr>] ''user_2'') 0 = Inr ''int x = 13;''
   \<and> merged_line (do_merge_apply [''int x = 10;'', ''int y = 20;'']
        [\<lparr>ts = 1, uid = ''user_1'', line = 0, cs = 9, ce = 9, op = Replace,
          old_text = ''0'', new_text = ''3''\<rparr>] [] ''user_2'') 0 = Inr ''int x = 13;''
   \<and> apply_updates ''int x = 10;'' 0
        [\<lparr>ts = 1, uid = ''user_1'', line = 0, cs = 9, ce = 9, op = Replace,
          old_text = ''0'', new_text = ''3''\<rparr>] = Inr ''int x = 13;''"
proof -
  let ?o1 = "\<lparr>ts = 1, uid = ''user_1'', line = 0, cs = 9, ce = 9, op = Replace,
       old_text = ''0'', new_text = ''1''\<rparr>"
  let ?o2 = "\<lparr>ts = 2, uid = ''user_1'', line = 0, cs = 9, ce = 9, op = Replace,
       old_text = ''1'', new_text = ''2''\<rparr>"
  let ?o3 = "\<lparr>ts = 3, uid = ''user_1'', line = 0, cs = 9, ce = 9, op = Replace,
       old_text = ''2'', new_text = ''3''\<rparr>"
  let ?p = "\<lparr>ts = 5, uid = ''user_2'', line = 1, cs = 8, ce = 9, op = Replace,
          old_text = ''20'', new_text = ''21''\<rparr>"
  have ch: "is_chain (?o1 # [?o2, ?o3])" by (simp add: continues_def)
  have fl: "filter (\<lambda>u. line u = line ?o1) ([?p] @ [?o1, ?o2, ?o3]) = ?o1 # [?o2, ?o3]" by simp
  have nm: "old_text ?o1 \<noteq> MERGED" by (simp add: MERGED_def)
  let ?s = "\<lparr>ts = 1, uid = ''user_1'', line = 0, cs = 9, ce = 9, op = Replace,
          old_text = ''0'', new_text = ''3''\<rparr>"
  let ?doc = "[''int x = 10;'', ''int y = 20;'']"
  have s: "?o1\<lparr>new_text := new_text (last (?o1 # [?o2, ?o3]))\<rparr> = ?s" by simp
  have l0: "line ?o1 = 0" by simp
  have at: "line_at ?doc (unat (0 :: 32 word)) = ''int x = 10;''"
    by (simp add: line_at_def)
  have ap: "[?p] @ [?o1, ?o2, ?o3] = [?p, ?o1, ?o2, ?o3]" by simp
  note T = chain_coalescing[OF ch fl, of ?doc "''user_2''", unfolded s l0 at]
  from T have 1: "merged_line (do_merge_apply ?doc [?p] [?o1, ?o2, ?o3] ''user_2'') 0 =
      merged_line (do_merge_apply ?doc [?s] [] ''user_2'') 0"
    by (rule conjunct1)
  from T[THEN conjunct2, rule_format, OF nm]
  have 2: "merged_line (do_merge_apply ?doc [?p] [?o1, ?o2, ?o3] ''user_2'') 0 =
      apply_updates ''int x = 10;'' 0 [?s]" .
  have 3: "''0'' \<noteq> MERGED" using nm by simp
  have 4: "is_chain [?o1, ?o2, ?o3]" using ch .
  have 5: "merged_line (do_merge_apply ?doc [?s] [] ''user_2'') 0 = Inr ''int x = 13;''"
    using 1 unfolding chain_example by (rule sym)
  have 6: "apply_updates ''int x = 10;'' 0 [?s] = Inr ''int x = 13;''"
    using 2 unfolding chain_example by (rule sym)
  from 4 3 chain_example 5 6 show ?thesis
    by (intro conjI)
qed

text \<open>
  Claim C4 fails on the code. The tombstone of the coalescing loop is a value of the field
  \<open>old_text\<close> itself, so an operation whose \<open>old_text\<close> is that very text is taken for an
  absorbed one. A line reads \<open>###MERGED###\<close>; \<open>user_1\<close> replaces it by \<open>a\<close>, then \<open>a\<close> by
  \<open>b\<close>. The change detection emits the two operations, which form a chain; the peer that
  receives them coalesces the second into the first and then drops the first as merged:
  nothing is applied and the line stays \<open>###MERGED###\<close>, while applying the single
  operation with the \<open>old_text\<close> of the first and the \<open>new_text\<close> of the second gives \<open>b\<close>.
\<close>

theorem chain_marker_dropped:
  "map (\<lambda>c. to_ext (to_message ''user_1'' 1 c))
     (detect_changes ''12:00:00'' ''user_1'' [''###MERGED###''] [''a'']) =
     [\<lparr>ts = 1, uid = ''user_1'', line = 0, cs = 0, ce = 11, op = Replace,
       old_text = ''###MERGED###'', new_text = ''a''\<rparr>]
   \<and> map (\<lambda>c. to_ext (to_message ''user_1'' 2 c))
     (detect_changes ''12:00:01'' ''user_1'' [''a''] [''b'']) =
     [\<lparr>ts = 2, uid = ''user_1'', line = 0, cs = 0, ce = 0, op = Replace,
       old_text = ''a'', new_text = ''b''\<rparr>]
   \<and> is_chain
     [\<lparr>ts = 1, uid = ''user_1'', line = 0, cs = 0, ce = 11, op = Replace,
       old_text = ''###MERGED###'', new_text = ''a''\<rparr>,
      \<lparr>ts = 2, uid = ''user_1'', line = 0, cs = 0, ce = 0, op = Replace,
       old_text = ''a'', new_text = ''b''\<rparr>]
   \<and> do_merge_apply [''###MERGED###''] []
     [\<lparr>ts = 1, uid = ''user_1'', line = 0, cs = 0, ce = 11, op = Replace,
       old_text = ''###MERGED###'', new_text = ''a''\<rparr>,
      \<lparr>ts = 2, uid = ''user_1'', line = 0, cs = 0, ce = 0, op = Replace,
       old_text = ''a'', new_text = ''b''\<rparr>] ''user_2'' = Inr (False, [''###MERGED###''], [], [])
   \<and> apply_update_to_line ''###MERGED###''
      \<lparr>ts = 1, uid = ''user_1'', line = 0, cs = 0, ce = 11, op = Replace,
       old_text = ''###MERGED###'', new_text = ''b''\<rparr> = Inr ''b''
   \<and> apply_updates ''###MERGED###'' 0
     [\<lparr>ts = 1, uid = ''user_1'', line = 0, cs = 0, ce = 11, op = Replace,
       old_text = ''###MERGED###'', new_text = ''b''\<rparr>] = Inr ''b''"
proof -
  have 1: "map (\<lambda>c. to_ext (to_message ''user_1'' 1 c))
     (detect_changes ''12:00:00'' ''user_1'' [''###MERGED###''] [''a'']) =
     [\<lparr>ts = 1, uid = ''user_1'', line = 0, cs = 0, ce = 11, op = Replace,
       old_text = ''###MERGED###'', new_text = ''a''\<rparr>]"
    by code_simp
  have 2: "map (\<lambda>c. to_ext (to_message ''user_1'' 2 c))
     (detect_changes ''12:00:01'' ''user_1'' [''a''] [''b'']) =
     [\<lparr>ts = 2, uid = ''user_1'', line = 0, cs = 0, ce = 0, op = Replace,
       old_text = ''a'', new_text = ''b''\<rparr>]"
    by code_simp
  have 3: "is_chain
     [\<lparr>ts = 1, uid = ''user_1'', line = 0, cs = 0, ce = 11, op = Replace,
       old_text = ''###MERGED###'', new_text = ''a''\<rparr>,
      \<lparr>ts = 2, uid = ''user_1'', line = 0, cs = 0, ce = 0, op = Replace,
       old_text = ''a'', new_text = ''b''\<rparr>]"
    by (simp add: continues_def)
  have 4: "do_merge_apply [''###MERGED###''] []
     [\<lparr>ts = 1, uid = ''user_1'', line = 0, cs = 0, ce = 11, op = Replace,
       old_text = ''###MERGED###'', new_text = ''a''\<rparr>,
      \<lparr>ts = 2, uid = ''user_1'', line = 0, cs = 0, ce = 0, op = Replace,
       old_text = ''a'', new_text = ''b''\<rparr>] ''user_2'' = Inr (False, [''###MERGED###''], [], [])"
    by code_simp
  have 5: "apply_update_to_line ''###MERGED###''
      \<lparr>ts = 1, uid = ''user_1'', line = 0, cs = 0, ce = 11, op = Replace,
       old_text = ''###MERGED###'', new_text = ''b''\<rparr> = Inr ''b''"
    by code_simp
  have 6: "apply_updates ''###MERGED###'' 0
     [\<lparr>ts = 1, uid = ''user_1'', line = 0, cs = 0, ce = 11, op = Replace,
       old_text = ''###MERGED###'', new_text = ''b''\<rparr>] = Inr ''b''"
    by code_simp
  from 1 2 3 4 5 6 show ?thesis by (intro conjI)
qed

text \<open>
  The same test removes such an operation from the resolution: of two overlapping
  operations with equal timestamps, the one with the smaller uid is dead, without a
  comparison, when its \<open>old_text\<close> is the marker text.
\<close>

lemma marker_operation_dropped:
  "overlaps
      \<lparr>ts = 1, uid = ''user_1'', line = 0, cs = 0, ce = 11, op = Replace,
       old_text = ''###MERGED###'', new_text = ''a''\<rparr>
      \<lparr>ts = 1, uid = ''user_2'', line = 0, cs = 0, ce = 2, op = Replace,
       old_text = ''###'', new_text = ''b''\<rparr>
   \<and> (''user_1'' :: string) < ''user_2''
   \<and> alive_flags
     [\<lparr>ts = 1, uid = ''user_1'', line = 0, cs = 0, ce = 11, op = Replace,
       old_text = ''###MERGED###'', new_text = ''a''\<rparr>,
      \<lparr>ts = 1, uid = ''user_2'', line = 0, cs = 0, ce = 2, op = Replace,
       old_text = ''###'', new_text = ''b''\<rparr>] = [False, True]"
proof -
  have 1: "overlaps
      \<lparr>ts = 1, uid = ''user_1'', line = 0, cs = 0, ce = 11, op = Replace,
       old_text = ''###MERGED###'', new_text = ''a''\<rparr>
      \<lparr>ts = 1, uid = ''user_2'', line = 0, cs = 0, ce = 2, op = Replace,
       old_text = ''###'', new_text = ''b''\<rparr>"
    by (simp add: overlaps_def wrap_int32_def)
  have 2: "(''user_1'' :: string) < ''user_2''" by simp
  have 3: "alive_flags
     [\<lparr>ts = 1, uid = ''user_1'', line = 0, cs = 0, ce = 11, op = Replace,
       old_text = ''###MERGED###'', new_text = ''a''\<rparr>,
      \<lparr>ts = 1, uid = ''user_2'', line = 0, cs = 0, ce = 2, op = Replace,
       old_text = ''###'', new_text = ''b''\<rparr>] = [False, True]"
    by code_simp
  from 1 2 3 show ?thesis by (intro conjI)
qed

text \<open>
  Claim C5, as the code has it. The merge takes \<^verbatim>\<open>self_uid\<close> and discards it: its result is
  the same for every value of \<^verbatim>\<open>self_uid\<close>. An operation authored by the merging peer is
  resolved and applied to the baseline like any other: merged alone, and not carrying the
  tombstone marker, it goes through the application step whatever the line holds at
  \<open>col_start\<close>.
\<close>

theorem self_uid_ignored:
  "do_merge_apply lines local_unmerged recv_unmerged self_uid =
   do_merge_apply lines local_unmerged recv_unmerged other_uid
   \<and> (uid u = self_uid \<and> old_text u \<noteq> MERGED \<longrightarrow>
        merged_line (do_merge_apply lines [u] [] self_uid) (line u) =
        apply_updates (line_at lines (unat (line u))) 0 [u])"
proof -
  have 1: "do_merge_apply lines local_unmerged recv_unmerged self_uid =
      do_merge_apply lines local_unmerged recv_unmerged other_uid"
    by (simp add: do_merge_apply_def)
  have 2: "merged_line (do_merge_apply lines [u] [] self_uid) (line u) =
      apply_updates (line_at lines (unat (line u))) 0 [u]" if "old_text u \<noteq> MERGED"
  proof -
    from single_merged_line[of lines u self_uid] that obtain changed doc where
      "do_merge_apply lines [u] [] self_uid = Inr (changed, doc, [], [])"
      "apply_updates (line_at lines (unat (line u))) 0 [u] = Inr (line_at doc (unat (line u)))"
      by auto
    then show ?thesis by (simp add: merged_line_def del: apply_updates.simps)
  qed
  from 1 2 show ?thesis by blast
qed

theorem self_uid_ignored_witness:
  "uid \<lparr>ts = 1000, uid = ''user_1'', line = 0, cs = 8, ce = 9, op = Replace,
         old_text = ''10'', new_text = ''4''\<rparr> = ''user_1''
   \<and> ''10'' \<noteq> MERGED
   \<and> do_merge_apply [''int x = 4;'']
        [\<lparr>ts = 1000, uid = ''user_1'', line = 0, cs = 8, ce = 9, op = Replace,
          old_text = ''10'', new_text = ''4''\<rparr>] [] ''user_1'' =
      do_merge_apply [''int x = 4;'']
        [\<lparr>ts = 1000, uid = ''user_1'', line = 0, cs = 8, ce = 9, op = Replace,
          old_text = ''10'', new_text = ''4''\<rparr>] [] ''user_2''
   \<and> merged_line (do_merge_apply [''int x = 4;'']
        [\<lparr>ts = 1000, uid = ''user_1'', line = 0, cs = 8, ce = 9, op = Replace,
          old_text = ''10'', new_text = ''4''\<rparr>] [] ''user_1'') 0 =
      apply_updates ''int x = 4;'' 0
        [\<lparr>ts = 1000, uid = ''user_1'', line = 0, cs = 8, ce = 9, op = Replace,
          old_text = ''10'', new_text = ''4''\<rparr>]"
proof -
  let ?u = "\<lparr>ts = 1000, uid = ''user_1'', line = 0, cs = 8, ce = 9, op = Replace,
         old_text = ''10'', new_text = ''4''\<rparr>"
  have a: "uid ?u = ''user_1''" by simp
  have m: "old_text ?u \<noteq> MERGED" by (simp add: MERGED_def)
  have l0: "line ?u = 0" by simp
  have at: "line_at [''int x = 4;''] (unat (0 :: 32 word)) = ''int x = 4;''"
    by (simp add: line_at_def)
  note T = self_uid_ignored[of "[''int x = 4;'']" "[?u]" "[]" "''user_1''" "''user_2''" ?u,
      unfolded l0 at]
  from T have 1: "do_merge_apply [''int x = 4;''] [?u] [] ''user_1'' =
      do_merge_apply [''int x = 4;''] [?u] [] ''user_2''"
    by (rule conjunct1)
  from T[THEN conjunct2, rule_format, OF conjI[OF a m]]
  have 2: "merged_line (do_merge_apply [''int x = 4;''] [?u] [] ''user_1'') 0 =
      apply_updates ''int x = 4;'' 0 [?u]" .
  have 3: "''10'' \<noteq> MERGED" using m by simp
  from a 3 1 2 show ?thesis by (intro conjI)
qed

text \<open>
  Claim C5 as stated fails. The baseline line \<open>int x = 4;\<close> already holds the new text
  \<open>4\<close> of the peer's own operation at column 8, and the merge applies the operation
  again: it replaces columns 8 to 9 and the line loses its last character.
\<close>

theorem self_guard_counterexample:
  "uid \<lparr>ts = 1000, uid = ''user_1'', line = 0, cs = 8, ce = 9, op = Replace,
         old_text = ''10'', new_text = ''4''\<rparr> = ''user_1''
   \<and> take (length ''4'') (drop 8 ''int x = 4;'') = ''4''
   \<and> do_merge_apply [''int x = 4;'']
        [\<lparr>ts = 1000, uid = ''user_1'', line = 0, cs = 8, ce = 9, op = Replace,
          old_text = ''10'', new_text = ''4''\<rparr>] [] ''user_1'' =
        Inr (True, [''int x = 4''], [], [])
   \<and> [''int x = 4''] \<noteq> [''int x = 4;'']"
proof -
  have "do_merge_apply [''int x = 4;'']
        [\<lparr>ts = 1000, uid = ''user_1'', line = 0, cs = 8, ce = 9, op = Replace,
          old_text = ''10'', new_text = ''4''\<rparr>] [] ''user_1'' =
        Inr (True, [''int x = 4''], [], [])"
    by code_simp
  then show ?thesis by simp
qed

end
